theory Spec2Isabelle
  imports Complex_Main "HOL-Library.Multiset"
begin

text \<open>
  The simulation core of the drive-through optimizer (\<open>src/bad_2.js\<close>): the lane advisor,
  the spot allocator, the rebalancer, the Erlang-C estimator and the engine step, as functions
  of Isabelle/HOL, and the properties the specification states about them.
\<close>

section \<open>JavaScript numbers\<close>

text \<open>
  The simulation core computes with JavaScript numbers and produces \<open>Infinity\<close> on purpose
  (\<open>predictedQueueTime\<close>, \<open>exp\<close>, \<open>expectedWaitMinutes\<close>, the initial \<open>bestTime\<close> and
  \<open>bestScore\<close>). A computed number is therefore a real number, one of the two infinities, or
  NaN. Arithmetic on finite values is exact (rounding is not modelled), and there is no negative
  zero: a division of a positive number by zero gives \<open>PInf\<close>.

  Values that enter the core from outside (slider parameters, spot attributes from
  \<open>generateSpots\<close>, the tick length) are finite numbers and have type \<open>real\<close>; server counts
  are integers (the controls round them) and have type \<open>int\<close>.
\<close>

datatype jsnum = Fin real | PInf | NInf | NaN

fun jneg :: "jsnum \<Rightarrow> jsnum" where
  "jneg (Fin a) = Fin (- a)"
| "jneg PInf = NInf"
| "jneg NInf = PInf"
| "jneg NaN = NaN"

fun jadd :: "jsnum \<Rightarrow> jsnum \<Rightarrow> jsnum" where
  "jadd (Fin a) (Fin b) = Fin (a + b)"
| "jadd NaN _ = NaN"
| "jadd _ NaN = NaN"
| "jadd PInf NInf = NaN"
| "jadd NInf PInf = NaN"
| "jadd PInf _ = PInf"
| "jadd _ PInf = PInf"
| "jadd NInf _ = NInf"
| "jadd _ NInf = NInf"

definition jsub :: "jsnum \<Rightarrow> jsnum \<Rightarrow> jsnum" where
  "jsub a b = jadd a (jneg b)"

fun jmul :: "jsnum \<Rightarrow> jsnum \<Rightarrow> jsnum" where
  "jmul (Fin a) (Fin b) = Fin (a * b)"
| "jmul NaN _ = NaN"
| "jmul _ NaN = NaN"
| "jmul PInf (Fin b) = (if b = 0 then NaN else if 0 < b then PInf else NInf)"
| "jmul NInf (Fin b) = (if b = 0 then NaN else if 0 < b then NInf else PInf)"
| "jmul (Fin a) PInf = (if a = 0 then NaN else if 0 < a then PInf else NInf)"
| "jmul (Fin a) NInf = (if a = 0 then NaN else if 0 < a then NInf else PInf)"
| "jmul PInf PInf = PInf"
| "jmul NInf NInf = PInf"
| "jmul PInf NInf = NInf"
| "jmul NInf PInf = NInf"

fun jdiv :: "jsnum \<Rightarrow> jsnum \<Rightarrow> jsnum" where
  "jdiv (Fin a) (Fin b) =
     (if b = 0 then (if 0 < a then PInf else if a < 0 then NInf else NaN) else Fin (a / b))"
| "jdiv NaN _ = NaN"
| "jdiv _ NaN = NaN"
| "jdiv (Fin a) PInf = Fin 0"
| "jdiv (Fin a) NInf = Fin 0"
| "jdiv PInf (Fin b) = (if 0 \<le> b then PInf else NInf)"
| "jdiv NInf (Fin b) = (if 0 \<le> b then NInf else PInf)"
| "jdiv _ _ = NaN"

text \<open>The comparisons \<open><\<close> and \<open><=\<close>: false as soon as one side is NaN.\<close>

fun jlt :: "jsnum \<Rightarrow> jsnum \<Rightarrow> bool" where
  "jlt (Fin a) (Fin b) = (a < b)"
| "jlt NaN _ = False"
| "jlt _ NaN = False"
| "jlt _ NInf = False"
| "jlt PInf _ = False"
| "jlt NInf _ = True"
| "jlt _ PInf = True"

fun jle :: "jsnum \<Rightarrow> jsnum \<Rightarrow> bool" where
  "jle (Fin a) (Fin b) = (a \<le> b)"
| "jle NaN _ = False"
| "jle _ NaN = False"
| "jle NInf _ = True"
| "jle _ PInf = True"
| "jle _ NInf = False"
| "jle PInf _ = False"

text \<open>\<open>Math.max\<close> of two numbers: NaN as soon as one of them is.\<close>

definition jmax :: "jsnum \<Rightarrow> jsnum \<Rightarrow> jsnum" where
  "jmax a b = (if a = NaN \<or> b = NaN then NaN else if jlt a b then b else a)"

section \<open>Binary64 arithmetic\<close>

text \<open>
  A JavaScript number is a binary64 value, and \<open>+\<close>, \<open>-\<close>, \<open>*\<close> and \<open>/\<close> return the exact
  result rounded to the nearest binary64 value, ties to the value with an even significand.
  \<open>round_even\<close> rounds a real number to an integer that way. The binade of \<open>x\<close> is the
  exponent \<open>e\<close> with \<open>2\<^sup>e \<le> |x| < 2\<^sup>e\<^sup>+\<^sup>1\<close>, and at least \<open>-1022\<close>, where the subnormal
  numbers begin; the unit in the last place is \<open>2\<^sup>e\<^sup>-\<^sup>5\<^sup>2\<close>, and \<open>nearest x\<close> is the multiple
  of that unit nearest to \<open>x\<close>. \<open>fl x\<close> is the binary64 value of the real number \<open>x\<close>: an
  infinity when \<open>nearest x\<close> has magnitude \<open>2\<^sup>1\<^sup>0\<^sup>2\<^sup>4\<close> or more. There is no negative zero.
\<close>

definition round_even :: "real \<Rightarrow> int" where
  "round_even t =
     (let n = \<lfloor>t\<rfloor>; r = t - real_of_int n
      in if r < 1 / 2 then n else if 1 / 2 < r then n + 1 else if even n then n else n + 1)"

definition binade :: "real \<Rightarrow> int" where
  "binade x = max \<lfloor>log 2 \<bar>x\<bar>\<rfloor> (- 1022)"

definition ulp :: "real \<Rightarrow> real" where
  "ulp x = 2 powi (binade x - 52)"

definition nearest :: "real \<Rightarrow> real" where
  "nearest x = real_of_int (round_even (x / ulp x)) * ulp x"

definition fl :: "real \<Rightarrow> jsnum" where
  "fl x = (if 2 ^ 1024 \<le> \<bar>nearest x\<bar> then (if 0 < x then PInf else NInf)
           else Fin (nearest x))"

text \<open>The four operations on binary64 values: the exact operation, then the rounding.\<close>

fun rnd :: "jsnum \<Rightarrow> jsnum" where
  "rnd (Fin x) = fl x"
| "rnd v = v"

definition dadd :: "jsnum \<Rightarrow> jsnum \<Rightarrow> jsnum" where
  "dadd a b = rnd (jadd a b)"

definition dsub :: "jsnum \<Rightarrow> jsnum \<Rightarrow> jsnum" where
  "dsub a b = rnd (jsub a b)"

definition dmul :: "jsnum \<Rightarrow> jsnum \<Rightarrow> jsnum" where
  "dmul a b = rnd (jmul a b)"

definition ddiv :: "jsnum \<Rightarrow> jsnum \<Rightarrow> jsnum" where
  "ddiv a b = rnd (jdiv a b)"

text \<open>
  The binary64 values: \<open>m * 2\<^sup>e\<close> with \<open>|m| < 2\<^sup>5\<^sup>3\<close> and \<open>-1074 \<le> e \<le> 971\<close>. A decimal
  literal of the source, such as \<open>0.55\<close>, denotes the binary64 value nearest to it.
\<close>

definition is_double :: "real \<Rightarrow> bool" where
  "is_double x =
     (\<exists>m e. \<bar>m\<bar> < 2 ^ 53 \<and> - 1074 \<le> e \<and> e \<le> 971 \<and> x = real_of_int m * 2 powi e)"

definition lit :: "real \<Rightarrow> real" where
  "lit x = nearest x"

section \<open>Analytic estimator\<close>

text \<open>
  \<^verbatim>\<open>function fact(n) { let r = 1; for (let i = 2; i <= n; i++) r *= i; return r; }\<close>
\<close>

function fact_loop :: "int \<Rightarrow> int \<Rightarrow> real \<Rightarrow> real" where
  "fact_loop i n r = (if i \<le> n then fact_loop (i + 1) n (r * real_of_int i) else r)"
  by pat_completeness auto
termination
  by (relation "measure (\<lambda>(i, n, r). nat (n + 1 - i))") auto

definition fact_js :: "int \<Rightarrow> real" where
  "fact_js n = fact_loop 2 n 1"

text \<open>
  The summation loop of \<open>erlangC\<close>:
  \<^verbatim>\<open>let sum = 0; for (let k = 0; k < s; k++) { sum += Math.pow(lam / mu, k) / fact(k); }\<close>
  It runs only behind the guard \<open>mu > 0\<close>, so \<open>lam / mu\<close> is a finite number \<open>a\<close>, and
  \<open>fact(k)\<close> is at least 1: every value in the loop is finite.
\<close>

function erlang_sum_loop :: "real \<Rightarrow> int \<Rightarrow> int \<Rightarrow> real \<Rightarrow> real" where
  "erlang_sum_loop a s k sm =
     (if k < s then erlang_sum_loop a s (k + 1) (sm + a ^ nat k / fact_js k) else sm)"
  by pat_completeness auto
termination
  by (relation "measure (\<lambda>(a, s, k, sm). nat (s - k))") auto

text \<open>
  \<^verbatim>\<open>
  function erlangC(lam, mu, s) {
    if (s <= 0 || mu <= 0) return 1;
    const rho = lam / (s * mu);
    if (rho >= 1) return 1;
    let sum = 0; for (...) {...}
    const ps = (Math.pow(lam / mu, s) / (fact(s) * (1 - rho)))
             * (1 / (sum + (Math.pow(lam / mu, s) / (fact(s) * (1 - rho)))));
    return ps;
  }\<close>
  Behind the two guards \<open>s * mu > 0\<close> and \<open>1 - rho > 0\<close>, so only the last division can be
  one by zero (it is, for some negative \<open>lam\<close>); that one is a \<open>jdiv\<close>.
\<close>

definition erlangC :: "real \<Rightarrow> real \<Rightarrow> int \<Rightarrow> jsnum" where
  "erlangC lam mu s =
     (if s \<le> 0 \<or> mu \<le> 0 then Fin 1
      else let rho = lam / (real_of_int s * mu) in
        if rho \<ge> 1 then Fin 1
        else let sm = erlang_sum_loop (lam / mu) s 0 0;
                 top = (lam / mu) ^ nat s / (fact_js s * (1 - rho))
             in jmul (Fin top) (jdiv (Fin 1) (Fin (sm + top))))"

text \<open>
  \<^verbatim>\<open>
  function expectedWaitMinutes(lam, mu, s) {
    if (s <= 0 || mu <= 0) return Infinity;
    const C = erlangC(lam, mu, s);
    const rho = lam / (s * mu);
    if (rho >= 1) return Infinity;
    return (C / (s * mu - lam));
  }\<close>
\<close>

definition expectedWaitMinutes :: "real \<Rightarrow> real \<Rightarrow> int \<Rightarrow> jsnum" where
  "expectedWaitMinutes lam mu s =
     (if s \<le> 0 \<or> mu \<le> 0 then PInf
      else let C = erlangC lam mu s;
               rho = lam / (real_of_int s * mu) in
        if rho \<ge> 1 then PInf
        else jdiv C (Fin (real_of_int s * mu - lam)))"




section \<open>Data model\<close>

datatype lane = LaneA | LaneB

text \<open>
  A vehicle. \<open>cid\<close> is the number \<open>uid()\<close> draws (the source prints it in base 36), and
  \<open>progress\<close> is split into its three optional stamps. \<open>ref\<close> is not a field of the source: it
  is the identity of the JavaScript object, the number of car objects created before this one
  since the last reset. Nothing in the model reads it.
\<close>

record car =
  ref :: nat
  cid :: real
  arrival :: real
  isMobile :: bool
  progress_order :: "real option"
  progress_pay :: "real option"
  progress_pickup :: "real option"
  parkingSpotId :: "nat option"
  state :: "string option"
  lane :: "lane option"
  readyAt :: "real option"

text \<open>A parking spot; \<open>sid\<close> is the number \<open>n\<close> of the id \<open>Sn\<close>, \<open>sx\<close> and \<open>sy\<close> the position.\<close>

record spot =
  sid :: nat
  sx :: real
  sy :: real
  occupied :: bool
  reserved :: bool
  exitFriction :: real
  localCongestion :: real
  backIn :: bool

record parameters =
  arrivalRate :: real
  mobileShare :: real
  divertThresholdMin :: real
  orderRate :: real
  payRate :: real
  pickupRate :: real
  orderServers :: "lane \<Rightarrow> int"
  payServers :: int
  pickupServers :: int
  autoRebalance :: bool

record queue_net =
  order :: "lane \<Rightarrow> car list"
  pay :: "car list"
  pickup :: "car list"
  curbside :: "car list"

text \<open>
  The metrics. \<open>waits\<close> is not a field of the source: it logs, in order, every wait sample
  \<open>w = now - car.arrival\<close> that the source folds into \<open>avgWait\<close>. Nothing in the model
  reads it.
\<close>

record metric_set =
  arrivals :: nat
  served :: nat
  parked :: nat
  avgWait :: real
  maxWip :: nat
  history :: "(real \<times> nat \<times> real) list"
  waits :: "real list"

text \<open>The object \<open>{ queues, params }\<close> that the advisor and the rebalancer receive.\<close>

record sys =
  queues :: queue_net
  params :: parameters

section \<open>Lane advisor\<close>

text \<open>
  \<^verbatim>\<open>const predictedQueueTime = (q, rate, servers) =>
    (rate <= 0 || servers <= 0 ? Infinity : q / (rate * servers));\<close>
\<close>

definition predictedQueueTime :: "real \<Rightarrow> real \<Rightarrow> int \<Rightarrow> jsnum" where
  "predictedQueueTime q rate servers =
     (if rate \<le> 0 \<or> servers \<le> 0 then PInf
      else jdiv (Fin q) (Fin (rate * real_of_int servers)))"

text \<open>The body of the loop over the lanes: the predicted total of lane \<open>L\<close>.\<close>

definition lane_total :: "'a sys_scheme \<Rightarrow> real \<Rightarrow> lane \<Rightarrow> jsnum" where
  "lane_total sys mobileFactor L =
     (let tOrder = predictedQueueTime (real (length (order (queues sys) L)))
                     (orderRate (params sys)) (orderServers (params sys) L);
          tPay = predictedQueueTime (real (length (pay (queues sys))))
                     (payRate (params sys)) (payServers (params sys));
          tPickup = predictedQueueTime (real (length (pickup (queues sys))))
                     (pickupRate (params sys)) (pickupServers (params sys))
      in jadd (jadd (jmul tOrder (Fin mobileFactor)) tPay) tPickup)"

fun lane_loop :: "'a sys_scheme \<Rightarrow> real \<Rightarrow> lane list \<Rightarrow> lane \<times> jsnum \<Rightarrow> lane \<times> jsnum" where
  "lane_loop sys mobileFactor [] (best, bestTime) = (best, bestTime)"
| "lane_loop sys mobileFactor (L # Ls) (best, bestTime) =
     (let total = lane_total sys mobileFactor L
      in lane_loop sys mobileFactor Ls
           (if jlt total bestTime then (L, total) else (best, bestTime)))"

text \<open>
  \<^verbatim>\<open>
  const chooseBestLane = (sys, isMobile) => {
    const lanes = ["A", "B"];
    const mobileFactor = isMobile ? 0.55 : 1.0;
    let best = lanes[0];
    let bestTime = Infinity;
    for (const L of lanes) { ...; if (total < bestTime) { bestTime = total; best = L; } }
    return { lane: best, eta: bestTime };
  };\<close>
  The result \<open>{lane, eta}\<close> is the pair \<open>(lane, eta)\<close>.
\<close>

definition mobileFactor_of :: "bool \<Rightarrow> real" where
  "mobileFactor_of isMob = (if isMob then 55 / 100 else 1)"

definition chooseBestLane :: "'a sys_scheme \<Rightarrow> bool \<Rightarrow> lane \<times> jsnum" where
  "chooseBestLane sys isMob =
     lane_loop sys (mobileFactor_of isMob) [LaneA, LaneB] (LaneA, PInf)"

section \<open>Spot allocator\<close>

record weights =
  w_dist :: real
  w_exit :: real
  w_cong :: real
  w_angle :: real

text \<open>The optional argument \<open>opts\<close>, with its two optional fields \<open>entrance\<close> and \<open>w\<close>.\<close>

record opts =
  entrance :: "(real \<times> real) option"
  w :: "weights option"

definition default_entrance :: "real \<times> real" where
  "default_entrance = (6, 70)"

definition default_w :: weights where
  "default_w = \<lparr>w_dist = 1, w_exit = 6 / 10, w_cong = 8 / 10, w_angle = 2 / 10\<rparr>"

text \<open>
  \<^verbatim>\<open>
  const dx = s.x - entrance.x, dy = s.y - entrance.y;
  const dist = Math.hypot(dx, dy);
  const score = w.dist * dist + w.exit * s.exitFriction + w.cong * s.localCongestion
              + w.angle * (s.backIn ? 0.7 : 0);\<close>
\<close>

definition spot_score :: "real \<times> real \<Rightarrow> weights \<Rightarrow> spot \<Rightarrow> real" where
  "spot_score e wt s =
     (let dx = sx s - fst e; dy = sy s - snd e;
          dist = sqrt (dx\<^sup>2 + dy\<^sup>2)
      in w_dist wt * dist + w_exit wt * exitFriction s + w_cong wt * localCongestion s
         + w_angle wt * (if backIn s then 7 / 10 else 0))"

text \<open>
  The loop over the spots. A reference to a spot object is its position in the array: \<open>i\<close> is
  the position of the head of the remaining list, \<open>best\<close> the position of the best spot so far.
\<close>

fun spot_loop ::
  "real \<times> real \<Rightarrow> weights \<Rightarrow> spot list \<Rightarrow> nat \<Rightarrow> nat option \<Rightarrow> jsnum \<Rightarrow> nat option" where
  "spot_loop e wt [] i best bestScore = best"
| "spot_loop e wt (s # ss) i best bestScore =
     (if occupied s \<or> reserved s then spot_loop e wt ss (Suc i) best bestScore
      else let score = Fin (spot_score e wt s)
           in if jlt score bestScore then spot_loop e wt ss (Suc i) (Some i) score
              else spot_loop e wt ss (Suc i) best bestScore)"

text \<open>
  \<^verbatim>\<open>
  function chooseParkingSpot(spots, opts) {
    const { entrance = { x: 6, y: 70 }, w = { dist: 1, exit: 0.6, cong: 0.8, angle: 0.2 } }
      = opts || {};
    let best = null, bestScore = Infinity;
    for (const s of spots) {...}
    return best;
  }\<close>
  The result is the position in \<open>spots\<close> of the object returned, \<open>None\<close> for \<open>null\<close>.
\<close>

definition opts_entrance :: "opts option \<Rightarrow> real \<times> real" where
  "opts_entrance os =
     (case os of None \<Rightarrow> default_entrance
      | Some ob \<Rightarrow> (case entrance ob of None \<Rightarrow> default_entrance | Some e \<Rightarrow> e))"

definition opts_w :: "opts option \<Rightarrow> weights" where
  "opts_w os =
     (case os of None \<Rightarrow> default_w
      | Some ob \<Rightarrow> (case w ob of None \<Rightarrow> default_w | Some wt \<Rightarrow> wt))"

definition chooseParkingSpot :: "spot list \<Rightarrow> opts option \<Rightarrow> nat option" where
  "chooseParkingSpot sps os = spot_loop (opts_entrance os) (opts_w os) sps 0 None PInf"

section \<open>Rebalancer\<close>

datatype stage = OrderA | OrderB | Pay | Pickup

text \<open>
  \<^verbatim>\<open>const util = (q, rate, s) => (s > 0 ? q / (rate * s + 1e-6) : Infinity);\<close>
\<close>

definition util :: "real \<Rightarrow> real \<Rightarrow> int \<Rightarrow> jsnum" where
  "util q rate s =
     (if s > 0 then jdiv (Fin q) (Fin (rate * real_of_int s + 1 / 1000000)) else PInf)"

text \<open>\<open>Object.entries(pressure)\<close>: the four pairs, in the order the keys were written.\<close>

definition pressure_entries :: "'a sys_scheme \<Rightarrow> (stage \<times> jsnum) list" where
  "pressure_entries sys =
     [(OrderA, util (real (length (order (queues sys) LaneA))) (orderRate (params sys))
                 (orderServers (params sys) LaneA)),
      (OrderB, util (real (length (order (queues sys) LaneB))) (orderRate (params sys))
                 (orderServers (params sys) LaneB)),
      (Pay, util (real (length (pay (queues sys)))) (payRate (params sys)) (payServers (params sys))),
      (Pickup, util (real (length (pickup (queues sys)))) (pickupRate (params sys))
                 (pickupServers (params sys)))]"

text \<open>
  \<open>Array.prototype.sort\<close> with a comparator: a stable sort, here by insertion. The element
  \<open>x\<close> goes in front of the first \<open>y\<close> with \<open>cmp(x, y) < 0\<close>; a comparator value of NaN counts
  as 0. The comparator of the source is \<open>(a, b) => b[1] - a[1]\<close>.
\<close>

fun sort_insert :: "('a \<Rightarrow> 'a \<Rightarrow> jsnum) \<Rightarrow> 'a \<Rightarrow> 'a list \<Rightarrow> 'a list" where
  "sort_insert cmp v [] = [v]"
| "sort_insert cmp v (y # ys) =
     (if jlt (cmp v y) (Fin 0) then v # y # ys else y # sort_insert cmp v ys)"

definition sort_js :: "('a \<Rightarrow> 'a \<Rightarrow> jsnum) \<Rightarrow> 'a list \<Rightarrow> 'a list" where
  "sort_js cmp vs = foldl (\<lambda>acc v. sort_insert cmp v acc) [] vs"

definition by_pressure_desc :: "stage \<times> jsnum \<Rightarrow> stage \<times> jsnum \<Rightarrow> jsnum" where
  "by_pressure_desc a b = jsub (snd b) (snd a)"

text \<open>
  The table \<open>stages\<close>: for each stage its \<open>get\<close>, its \<open>set\<close> and its \<open>min\<close>, which is 1.
\<close>

fun stage_get :: "parameters \<Rightarrow> stage \<Rightarrow> int" where
  "stage_get p OrderA = orderServers p LaneA"
| "stage_get p OrderB = orderServers p LaneB"
| "stage_get p Pay = payServers p"
| "stage_get p Pickup = pickupServers p"

fun stage_set :: "stage \<Rightarrow> int \<Rightarrow> parameters \<Rightarrow> parameters" where
  "stage_set OrderA v p = p\<lparr>orderServers := (orderServers p)(LaneA := v)\<rparr>"
| "stage_set OrderB v p = p\<lparr>orderServers := (orderServers p)(LaneB := v)\<rparr>"
| "stage_set Pay v p = p\<lparr>payServers := v\<rparr>"
| "stage_set Pickup v p = p\<lparr>pickupServers := v\<rparr>"

definition stage_min :: "stage \<Rightarrow> int" where
  "stage_min name = 1"

text \<open>
  \<^verbatim>\<open>
  for (const [name] of entries.slice().reverse()) {
    if (name === hottest) continue;
    const s = stages[name]();
    if (s.get() > s.min) {
      s.set(s.get() - 1);
      const h = stages[hottest]();
      h.set(h.get() + 1);
      return { from: name, to: hottest };
    }
  }
  return null;\<close>
  The loop returns the parameters as it leaves them and the pair \<open>(from, to)\<close>, or \<open>None\<close>
  for \<open>null\<close>.
\<close>

fun donor_loop :: "stage \<Rightarrow> stage list \<Rightarrow> parameters \<Rightarrow> parameters \<times> (stage \<times> stage) option" where
  "donor_loop hottest [] p = (p, None)"
| "donor_loop hottest (name # rest) p =
     (if name = hottest then donor_loop hottest rest p
      else if stage_get p name > stage_min name then
        (let p1 = stage_set name (stage_get p name - 1) p;
             p2 = stage_set hottest (stage_get p1 hottest + 1) p1
         in (p2, Some (name, hottest)))
      else donor_loop hottest rest p)"

text \<open>
  \<open>rebalanceServers(sys)\<close> writes to \<open>sys.params\<close> only. \<open>entries\<close> always has four elements,
  so \<open>entries[0][0]\<close> is defined; the empty case is there for totality.
\<close>

definition rebalanceServers :: "'a sys_scheme \<Rightarrow> 'a sys_scheme \<times> (stage \<times> stage) option" where
  "rebalanceServers sys =
     (let entries = sort_js by_pressure_desc (pressure_entries sys)
      in case entries of
           [] \<Rightarrow> (sys, None)
         | e # _ \<Rightarrow>
             (let hottest = fst e;
                  (p, r) = donor_loop hottest (rev (map fst entries)) (params sys)
              in (sys\<lparr>params := p\<rparr>, r)))"

section \<open>Simulation engine\<close>

text \<open>
  The state a step works on: the queues and the parameters (both mutated in place), the spots,
  and the refs \<open>metrics\<close>, \<open>nextArrival\<close>, \<open>orderClock\<close>, \<open>payClock\<close> and
  \<open>pickupClock\<close>.

  A step also reads the time \<open>now\<close> that its closure captured, and it calls
  \<open>Math.random()\<close>. Both are inputs of the model: \<open>now\<close> is an argument, and the values
  that \<open>Math.random()\<close> returns, numbers in \<open>[0, 1)\<close>, are a list consumed from the front.
  A function that draws returns the rest of the list with its result, and \<open>None\<close> when the
  list does not hold the draws it needs.
\<close>

record sim = sys +
  spots :: "spot list"
  metrics :: metric_set
  nextArrival :: jsnum
  orderClock :: "lane \<Rightarrow> jsnum"
  payClock :: jsnum
  pickupClock :: jsnum

text \<open>
  \<^verbatim>\<open>const rand = (min, max) => min + Math.random() * (max - min);\<close>
  with \<open>u\<close> the value drawn.
\<close>

definition rand_js :: "real \<Rightarrow> real \<Rightarrow> real \<Rightarrow> real" where
  "rand_js lo hi u = lo + u * (hi - lo)"

text \<open>
  \<^verbatim>\<open>const exp = (ratePerMin) =>
    (ratePerMin <= 0 ? Infinity : -Math.log(1 - Math.random()) / ratePerMin);\<close>
  It draws only when the rate is positive.
\<close>

definition exp_js :: "real \<Rightarrow> real list \<Rightarrow> (jsnum \<times> real list) option" where
  "exp_js ratePerMin rs =
     (if ratePerMin \<le> 0 then Some (PInf, rs)
      else case rs of [] \<Rightarrow> None
           | u # rs' \<Rightarrow> Some (jdiv (Fin (- ln (1 - u))) (Fin ratePerMin), rs'))"

text \<open>
  The update of the running average, written twice in the source (pickup and curbside):
  \<^verbatim>\<open>metrics.current.served++; const w = now - car.arrival; const m = metrics.current;
  m.avgWait = (m.avgWait * (m.served - 1) + w) / m.served;\<close>
\<close>

definition record_completion :: "real \<Rightarrow> car \<Rightarrow> metric_set \<Rightarrow> metric_set" where
  "record_completion now c m =
     (let m1 = m\<lparr>served := served m + 1\<rparr>;
          wt = now - arrival c
      in m1\<lparr>avgWait := (avgWait m1 * (real (served m1) - 1) + wt) / real (served m1),
             waits := waits m1 @ [wt]\<rparr>)"

text \<open>\<open>car.lane = lane; queues.order[lane].push(car);\<close>\<close>

definition join_lane :: "lane \<Rightarrow> car \<Rightarrow> sim \<Rightarrow> sim" where
  "join_lane L c st =
     st\<lparr>queues := (queues st)\<lparr>order :=
          (order (queues st))(L := order (queues st) L @ [c\<lparr>lane := Some L\<rparr>])\<rparr>\<rparr>"

text \<open>
  \<open>spot.occupied = true; car.parkingSpotId = spot.id; car.state = "curbside";
  queues.curbside.push(car); metrics.current.parked++;\<close> for the spot at position \<open>i\<close>.
\<close>

definition park :: "nat \<Rightarrow> car \<Rightarrow> sim \<Rightarrow> sim" where
  "park i c st =
     st\<lparr>spots := (spots st)[i := (spots st ! i)\<lparr>occupied := True\<rparr>],
        queues := (queues st)\<lparr>curbside := curbside (queues st) @
          [c\<lparr>parkingSpotId := Some (sid (spots st ! i)), state := Some ''curbside''\<rparr>]\<rparr>,
        metrics := (metrics st)\<lparr>parked := parked (metrics st) + 1\<rparr>\<rparr>"

text \<open>The routing of a car that has been counted as arrived:
  \<^verbatim>\<open>
  const { eta, lane } = chooseBestLane(sys, car.isMobile);
  if (eta > params.divertThresholdMin) {
    const spot = chooseParkingSpot(spots, { entrance: { x: 6, y: 70 } });
    if (spot) { ... curbside ... } else { car.lane = lane; queues.order[lane].push(car); }
  } else { car.lane = lane; queues.order[lane].push(car); }\<close>
\<close>

definition route :: "car \<Rightarrow> sim \<Rightarrow> sim" where
  "route c st =
     (let (bl, eta) = chooseBestLane st (isMobile c)
      in if jlt (Fin (divertThresholdMin (params st))) eta then
           (case chooseParkingSpot (spots st) (Some \<lparr>entrance = Some (6, 70), w = None\<rparr>) of
              Some i \<Rightarrow> park i c st
            | None \<Rightarrow> join_lane bl c st)
         else join_lane bl c st)"

text \<open>
  One arrival: the car object is created (\<open>u_id\<close> is the draw of \<open>uid()\<close>, \<open>u_mob\<close> the draw
  compared with the mobile share), \<open>metrics.current.arrivals++\<close>, and the car is routed.
\<close>

definition new_car :: "real \<Rightarrow> real \<Rightarrow> real \<Rightarrow> sim \<Rightarrow> car" where
  "new_car now u_id u_mob st =
     \<lparr>ref = arrivals (metrics st), cid = u_id, arrival = now,
      isMobile = (u_mob < mobileShare (params st)),
      progress_order = None, progress_pay = None, progress_pickup = None,
      parkingSpotId = None, state = None, lane = None, readyAt = None\<rparr>"

definition admit :: "real \<Rightarrow> real \<Rightarrow> real \<Rightarrow> sim \<Rightarrow> sim" where
  "admit now u_id u_mob st =
     (let c = new_car now u_id u_mob st;
          st1 = st\<lparr>metrics := (metrics st)\<lparr>arrivals := arrivals (metrics st) + 1\<rparr>\<rparr>
      in route c st1)"

text \<open>
  \<^verbatim>\<open>
  while (nextArrival.current <= 0) {
    const car = {...}; metrics.current.arrivals++; ...
    nextArrival.current += exp(params.arrivalRate / 60);
  }\<close>
\<close>

function arrivals_loop :: "real \<Rightarrow> real list \<Rightarrow> sim \<Rightarrow> (sim \<times> real list) option" where
  "arrivals_loop now rs st =
     (if jle (nextArrival st) (Fin 0) then
        (case rs of
           u_id # u_mob # rs1 \<Rightarrow>
             (let st1 = admit now u_id u_mob st
              in case exp_js (arrivalRate (params st1) / 60) rs1 of
                   None \<Rightarrow> None
                 | Some (gap, rs2) \<Rightarrow>
                     arrivals_loop now rs2 (st1\<lparr>nextArrival := jadd (nextArrival st1) gap\<rparr>))
         | _ \<Rightarrow> None)
      else Some (st, rs))"
  by pat_completeness auto
termination
proof (relation "measure (\<lambda>(now, rs, st). length rs)")
  show "wf (measure (\<lambda>(now, rs, st). length rs))" by simp
next
  fix now :: real and rs rs1 rs2 :: "real list" and st st1 :: sim
    and u_id u_mob :: real and list :: "real list" and x2 :: "jsnum \<times> real list" and gap :: jsnum
  assume "rs = u_id # list" "list = u_mob # rs1"
    and "exp_js (arrivalRate (params st1) / 60) rs1 = Some x2" "(gap, rs2) = x2"
  then have "length rs2 \<le> length rs1"
    by (auto simp: exp_js_def split: if_splits list.splits)
  with \<open>rs = u_id # list\<close> \<open>list = u_mob # rs1\<close>
  show "((now, rs2, st1\<lparr>nextArrival := jadd (nextArrival st1) gap\<rparr>), now, rs, st)
        \<in> measure (\<lambda>(now, rs, st). length rs)"
    by simp
qed

declare arrivals_loop.simps [simp del]

text \<open>
  The order stage of lane \<open>L\<close>:
  \<^verbatim>\<open>
  if (queues.order[L].length > 0 && params.orderServers[L] > 0) {
    orderClock.current[L] -= dt * params.orderServers[L];
    if (orderClock.current[L] <= 0) {
      const car = queues.order[L].shift();
      car.progress.order = now; queues.pay.push(car); orderClock.current[L] = 1 / params.orderRate;
    }
  } else {
    orderClock.current[L] = Math.max(orderClock.current[L], 1 / params.orderRate);
  }\<close>
\<close>

definition order_service :: "real \<Rightarrow> real \<Rightarrow> lane \<Rightarrow> sim \<Rightarrow> sim" where
  "order_service dt now L st =
     (if length (order (queues st) L) > 0 \<and> orderServers (params st) L > 0 then
        (let clk = jsub (orderClock st L) (Fin (dt * real_of_int (orderServers (params st) L)))
         in if jle clk (Fin 0) then
              (let c = hd (order (queues st) L);
                   q1 = (queues st)\<lparr>order := (order (queues st))(L := tl (order (queues st) L))\<rparr>;
                   q2 = q1\<lparr>pay := pay q1 @ [c\<lparr>progress_order := Some now\<rparr>]\<rparr>
               in st\<lparr>queues := q2,
                     orderClock := (orderClock st)(L := jdiv (Fin 1) (Fin (orderRate (params st))))\<rparr>)
            else st\<lparr>orderClock := (orderClock st)(L := clk)\<rparr>)
      else st\<lparr>orderClock := (orderClock st)
             (L := jmax (orderClock st L) (jdiv (Fin 1) (Fin (orderRate (params st)))))\<rparr>)"

text \<open>
  \<^verbatim>\<open>
  if (queues.pay.length > 0 && params.payServers > 0) {
    payClock.current -= dt * params.payServers;
    if (payClock.current <= 0) {
      const car = queues.pay.shift(); car.progress.pay = now; queues.pickup.push(car);
      payClock.current = 1 / params.payRate; }
  } else { payClock.current = Math.max(payClock.current, 1 / params.payRate); }\<close>
\<close>

definition pay_service :: "real \<Rightarrow> real \<Rightarrow> sim \<Rightarrow> sim" where
  "pay_service dt now st =
     (if length (pay (queues st)) > 0 \<and> payServers (params st) > 0 then
        (let clk = jsub (payClock st) (Fin (dt * real_of_int (payServers (params st))))
         in if jle clk (Fin 0) then
              (let c = hd (pay (queues st));
                   q1 = (queues st)\<lparr>pay := tl (pay (queues st))\<rparr>;
                   q2 = q1\<lparr>pickup := pickup q1 @ [c\<lparr>progress_pay := Some now\<rparr>]\<rparr>
               in st\<lparr>queues := q2, payClock := jdiv (Fin 1) (Fin (payRate (params st)))\<rparr>)
            else st\<lparr>payClock := clk\<rparr>)
      else st\<lparr>payClock := jmax (payClock st) (jdiv (Fin 1) (Fin (payRate (params st))))\<rparr>)"

text \<open>
  \<^verbatim>\<open>
  if (queues.pickup.length > 0 && params.pickupServers > 0) {
    pickupClock.current -= dt * params.pickupServers;
    if (pickupClock.current <= 0) {
      const car = queues.pickup.shift(); car.progress.pickup = now; metrics.current.served++;
      const w = now - car.arrival; ...avgWait...; pickupClock.current = 1 / params.pickupRate; }
  } else { pickupClock.current = Math.max(pickupClock.current, 1 / params.pickupRate); }\<close>
\<close>

definition pickup_service :: "real \<Rightarrow> real \<Rightarrow> sim \<Rightarrow> sim" where
  "pickup_service dt now st =
     (if length (pickup (queues st)) > 0 \<and> pickupServers (params st) > 0 then
        (let clk = jsub (pickupClock st) (Fin (dt * real_of_int (pickupServers (params st))))
         in if jle clk (Fin 0) then
              (let c = (hd (pickup (queues st)))\<lparr>progress_pickup := Some now\<rparr>;
                   q1 = (queues st)\<lparr>pickup := tl (pickup (queues st))\<rparr>
               in st\<lparr>queues := q1, metrics := record_completion now c (metrics st),
                     pickupClock := jdiv (Fin 1) (Fin (pickupRate (params st)))\<rparr>)
            else st\<lparr>pickupClock := clk\<rparr>)
      else st\<lparr>pickupClock :=
             jmax (pickupClock st) (jdiv (Fin 1) (Fin (pickupRate (params st))))\<rparr>)"

text \<open>
  \<open>const s = spots.find((x) => x.id === car.parkingSpotId); if (s) s.occupied = false;\<close>:
  the first spot with that id is released; with no such spot, or no id, nothing changes.
\<close>

fun release_first :: "nat \<Rightarrow> spot list \<Rightarrow> spot list" where
  "release_first pid [] = []"
| "release_first pid (s # ss) =
     (if sid s = pid then s\<lparr>occupied := False\<rparr> # ss else s # release_first pid ss)"

definition release_spot :: "nat option \<Rightarrow> spot list \<Rightarrow> spot list" where
  "release_spot pid sps = (case pid of None \<Rightarrow> sps | Some n \<Rightarrow> release_first n sps)"

text \<open>\<open>!car.readyAt\<close>: true when the field is absent or holds 0.\<close>

definition no_readyAt :: "car \<Rightarrow> bool" where
  "no_readyAt c = (case readyAt c of None \<Rightarrow> True | Some t \<Rightarrow> t = 0)"

text \<open>
  \<open>if (!car.readyAt) car.readyAt = car.arrival + rand(4, 10);\<close>: the car as the statement
  leaves it, with the draws that remain.
\<close>

definition ensure_readyAt :: "car \<Rightarrow> real list \<Rightarrow> (car \<times> real list) option" where
  "ensure_readyAt c rs =
     (if no_readyAt c then
        (case rs of [] \<Rightarrow> None
         | u # rs' \<Rightarrow> Some (c\<lparr>readyAt := Some (arrival c + rand_js 4 10 u)\<rparr>, rs'))
      else Some (c, rs))"

text \<open>
  The rest of the loop body at position \<open>i\<close>, where the car, now \<open>c1\<close>, has its ready time:
  \<^verbatim>\<open>
  if (now >= car.readyAt) {
    const s = spots.find((x) => x.id === car.parkingSpotId); if (s) s.occupied = false;
    queues.curbside.splice(i, 1);
    metrics.current.served++; const w = now - car.arrival; ...avgWait... }\<close>
\<close>

definition curbside_visit :: "real \<Rightarrow> nat \<Rightarrow> car \<Rightarrow> sim \<Rightarrow> sim" where
  "curbside_visit now i c1 st =
     (let st1 = st\<lparr>queues := (queues st)\<lparr>curbside := (curbside (queues st))[i := c1]\<rparr>\<rparr>
      in if now \<ge> the (readyAt c1) then
           st1\<lparr>spots := release_spot (parkingSpotId c1) (spots st1),
               queues := (queues st1)\<lparr>curbside :=
                 take i (curbside (queues st1)) @ drop (Suc i) (curbside (queues st1))\<rparr>,
               metrics := record_completion now c1 (metrics st1)\<rparr>
         else st1)"

text \<open>
  \<^verbatim>\<open>
  for (let i = queues.curbside.length - 1; i >= 0; i--) {
    const car = queues.curbside[i]; if (!car.readyAt) car.readyAt = car.arrival + rand(4, 10);
    if (now >= car.readyAt) {...}
  }\<close>
  The second argument counts the positions still to visit: \<open>Suc i\<close> visits position \<open>i\<close>.
\<close>

fun curbside_loop :: "real \<Rightarrow> nat \<Rightarrow> real list \<Rightarrow> sim \<Rightarrow> (sim \<times> real list) option" where
  "curbside_loop now 0 rs st = Some (st, rs)"
| "curbside_loop now (Suc i) rs st =
     (case ensure_readyAt (curbside (queues st) ! i) rs of
        None \<Rightarrow> None
      | Some (c1, rs1) \<Rightarrow> curbside_loop now i rs1 (curbside_visit now i c1 st))"

text \<open>
  \<^verbatim>\<open>
  const wip = queues.order.A.length + queues.order.B.length + queues.pay.length
            + queues.pickup.length + queues.curbside.length;
  metrics.current.maxWip = Math.max(metrics.current.maxWip, wip);
  metrics.current.history.push({ t: now, wip, wait: metrics.current.avgWait });\<close>
\<close>

definition wip_of :: "queue_net \<Rightarrow> nat" where
  "wip_of q = length (order q LaneA) + length (order q LaneB) + length (pay q)
            + length (pickup q) + length (curbside q)"

definition update_metrics :: "real \<Rightarrow> sim \<Rightarrow> sim" where
  "update_metrics now st =
     (let wip = wip_of (queues st);
          m1 = (metrics st)\<lparr>maxWip := max (maxWip (metrics st)) wip\<rparr>
      in st\<lparr>metrics := m1\<lparr>history := history m1 @ [(now, wip, avgWait m1)]\<rparr>\<rparr>)"

text \<open>
  \<open>if (params.autoRebalance && Math.random() < 0.05) { rebalanceServers({ queues, params }); }\<close>:
  the draw is made only when auto-rebalance is on.
\<close>

definition maybe_rebalance :: "real list \<Rightarrow> sim \<Rightarrow> (sim \<times> real list) option" where
  "maybe_rebalance rs st =
     (if autoRebalance (params st) then
        (case rs of [] \<Rightarrow> None
         | u # rs' \<Rightarrow> Some (if u < 5 / 100 then fst (rebalanceServers st) else st, rs'))
      else Some (st, rs))"

text \<open>
  \<open>step(dt)\<close>. \<open>setNow\<close>, \<open>setQueues\<close> and \<open>setSpots\<close> hand the result to the renderer and
  leave the state of the step as it is.
\<close>

definition step :: "real \<Rightarrow> real \<Rightarrow> real list \<Rightarrow> sim \<Rightarrow> (sim \<times> real list) option" where
  "step dt now rs st =
     (case arrivals_loop now rs (st\<lparr>nextArrival := jsub (nextArrival st) (Fin dt)\<rparr>) of
        None \<Rightarrow> None
      | Some (st1, rs1) \<Rightarrow>
          (let st2 = order_service dt now LaneB (order_service dt now LaneA st1);
               st3 = pay_service dt now st2;
               st4 = pickup_service dt now st3
           in case curbside_loop now (length (curbside (queues st4))) rs1 st4 of
                None \<Rightarrow> None
              | Some (st5, rs2) \<Rightarrow> maybe_rebalance rs2 (update_metrics now st5)))"

text \<open>
  \<open>reset()\<close>: empty queues, a fresh spot inventory \<open>sps\<close> (\<open>generateSpots()\<close> draws it), zero
  metrics and clocks, and a first interarrival time \<open>na\<close> (\<open>exp\<close> draws it).
\<close>

definition empty_queues :: queue_net where
  "empty_queues = \<lparr>order = (\<lambda>L. []), pay = [], pickup = [], curbside = []\<rparr>"

definition zero_metrics :: metric_set where
  "zero_metrics = \<lparr>arrivals = 0, served = 0, parked = 0, avgWait = 0, maxWip = 0,
                    history = [], waits = []\<rparr>"

definition reset_state :: "parameters \<Rightarrow> spot list \<Rightarrow> jsnum \<Rightarrow> sim" where
  "reset_state p sps na =
     \<lparr>queues = empty_queues, params = p, spots = sps, metrics = zero_metrics,
      nextArrival = na, orderClock = (\<lambda>L. Fin 0), payClock = Fin 0, pickupClock = Fin 0\<rparr>"

text \<open>
  The states a run can be in. \<open>useEffect\<close> creates the interval when \<open>running\<close> or
  \<open>params\<close> changes, and the interval calls the \<open>step\<close> of that render: a closure over that
  render's \<open>queues\<close> and \<open>spots\<close>, whose arrays every step updates in place, while
  \<open>metrics\<close>, \<open>nextArrival\<close> and the clocks are refs read through \<open>.current\<close>.
  So a run is in a reset state (at mount, and after \<open>reset()\<close> while the simulation is
  paused: the next interval is created over the fresh queues and spots), in the state after a
  step (with any tick length, captured time and draws), in the state after the controls have
  replaced the parameters, or in the state after \<open>reset()\<close> while the simulation is running.
  In that last state the interval still calls the closure over the old queues and spots, and
  its next \<open>setQueues\<close> and \<open>setSpots\<close> overwrite those of the reset; only the refs are
  fresh.
\<close>

inductive reachable :: "sim \<Rightarrow> bool" where
  reach_reset: "reachable (reset_state p sps na)"
| reach_step: "reachable st \<Longrightarrow> step dt now rs st = Some (st', rs') \<Longrightarrow> reachable st'"
| reach_params: "reachable st \<Longrightarrow> reachable (st\<lparr>params := p\<rparr>)"
| reach_reset_running:
    "reachable st \<Longrightarrow>
     reachable (st\<lparr>metrics := zero_metrics, nextArrival := na, orderClock := (\<lambda>L. Fin 0),
                    payClock := Fin 0, pickupClock := Fin 0\<rparr>)"

text \<open>The states of the runs in which \<open>reset()\<close> is called only while the simulation is
  paused.\<close>

inductive paused_reset_run :: "sim \<Rightarrow> bool" where
  run_reset: "paused_reset_run (reset_state p sps na)"
| run_step: "paused_reset_run st \<Longrightarrow> step dt now rs st = Some (st', rs') \<Longrightarrow>
             paused_reset_run st'"
| run_params: "paused_reset_run st \<Longrightarrow> paused_reset_run (st\<lparr>params := p\<rparr>)"

text \<open>Every car object in a queue, and the conservation invariant of the engine.\<close>

definition all_cars :: "queue_net \<Rightarrow> car list" where
  "all_cars q = order q LaneA @ order q LaneB @ pay q @ pickup q @ curbside q"

definition conserved :: "sim \<Rightarrow> bool" where
  "conserved st =
     (arrivals (metrics st) = served (metrics st) + wip_of (queues st)
      \<and> distinct (map ref (all_cars (queues st)))
      \<and> list_all (\<lambda>c. ref c < arrivals (metrics st)) (all_cars (queues st)))"

section \<open>The advisors and the estimator in binary64\<close>

text \<open>
  The sections above read the arithmetic of the source over the real numbers. This section
  reads \<open>predictedQueueTime\<close>, \<open>chooseBestLane\<close>, \<open>chooseParkingSpot\<close>, \<open>fact\<close>,
  \<open>erlangC\<close> and \<open>expectedWaitMinutes\<close> as the engine computes them: every \<open>+\<close>, \<open>-\<close>,
  \<open>*\<close> and \<open>/\<close> is the binary64 operation, and a decimal literal is the binary64 value nearest
  to it. The arguments are the same as above: a real number stands for a binary64 argument
  (\<open>is_double\<close> says that it is one), an integer for a server count.
\<close>

definition predictedQueueTime64 :: "real \<Rightarrow> real \<Rightarrow> int \<Rightarrow> jsnum" where
  "predictedQueueTime64 q rate servers =
     (if rate \<le> 0 \<or> servers \<le> 0 then PInf
      else ddiv (Fin q) (dmul (Fin rate) (Fin (real_of_int servers))))"

definition lane_total64 :: "'a sys_scheme \<Rightarrow> real \<Rightarrow> lane \<Rightarrow> jsnum" where
  "lane_total64 sys mobileFactor L =
     (let tOrder = predictedQueueTime64 (real (length (order (queues sys) L)))
                     (orderRate (params sys)) (orderServers (params sys) L);
          tPay = predictedQueueTime64 (real (length (pay (queues sys))))
                     (payRate (params sys)) (payServers (params sys));
          tPickup = predictedQueueTime64 (real (length (pickup (queues sys))))
                     (pickupRate (params sys)) (pickupServers (params sys))
      in dadd (dadd (dmul tOrder (Fin mobileFactor)) tPay) tPickup)"

fun lane_loop64 ::
  "'a sys_scheme \<Rightarrow> real \<Rightarrow> lane list \<Rightarrow> lane \<times> jsnum \<Rightarrow> lane \<times> jsnum" where
  "lane_loop64 sys mobileFactor [] (best, bestTime) = (best, bestTime)"
| "lane_loop64 sys mobileFactor (L # Ls) (best, bestTime) =
     (let total = lane_total64 sys mobileFactor L
      in lane_loop64 sys mobileFactor Ls
           (if jlt total bestTime then (L, total) else (best, bestTime)))"

definition mobileFactor64 :: "bool \<Rightarrow> real" where
  "mobileFactor64 isMob = (if isMob then lit (55 / 100) else 1)"

definition chooseBestLane64 :: "'a sys_scheme \<Rightarrow> bool \<Rightarrow> lane \<times> jsnum" where
  "chooseBestLane64 sys isMob =
     lane_loop64 sys (mobileFactor64 isMob) [LaneA, LaneB] (LaneA, PInf)"

text \<open>
  \<open>Math.hypot\<close>: \<open>+Infinity\<close> when an argument is infinite, else NaN when one is NaN. On
  finite arguments the standard leaves the precision to the engine; it is read here as the
  correctly rounded root of the sum of the squares.
\<close>

definition hypot64 :: "jsnum \<Rightarrow> jsnum \<Rightarrow> jsnum" where
  "hypot64 a b =
     (case (a, b) of
        (Fin x, Fin y) \<Rightarrow> fl (sqrt (x\<^sup>2 + y\<^sup>2))
      | _ \<Rightarrow> if a = PInf \<or> a = NInf \<or> b = PInf \<or> b = NInf then PInf else NaN)"

definition spot_score64 :: "real \<times> real \<Rightarrow> weights \<Rightarrow> spot \<Rightarrow> jsnum" where
  "spot_score64 e wt s =
     (let dx = dsub (Fin (sx s)) (Fin (fst e)); dy = dsub (Fin (sy s)) (Fin (snd e));
          dist = hypot64 dx dy
      in dadd (dadd (dadd (dmul (Fin (w_dist wt)) dist)
                          (dmul (Fin (w_exit wt)) (Fin (exitFriction s))))
                    (dmul (Fin (w_cong wt)) (Fin (localCongestion s))))
              (dmul (Fin (w_angle wt)) (Fin (if backIn s then lit (7 / 10) else 0))))"

fun spot_loop64 ::
  "real \<times> real \<Rightarrow> weights \<Rightarrow> spot list \<Rightarrow> nat \<Rightarrow> nat option \<Rightarrow> jsnum \<Rightarrow> nat option" where
  "spot_loop64 e wt [] i best bestScore = best"
| "spot_loop64 e wt (s # ss) i best bestScore =
     (if occupied s \<or> reserved s then spot_loop64 e wt ss (Suc i) best bestScore
      else let score = spot_score64 e wt s
           in if jlt score bestScore then spot_loop64 e wt ss (Suc i) (Some i) score
              else spot_loop64 e wt ss (Suc i) best bestScore)"

text \<open>
  \<open>const { entrance = { x: 6, y: 70 }, w = { dist: 1, exit: 0.6, cong: 0.8, angle: 0.2 } }
  = opts || {};\<close>: a field that is absent gets its default, also when \<open>opts\<close> is absent.
\<close>

definition chooseParkingSpot64 :: "spot list \<Rightarrow> opts option \<Rightarrow> nat option" where
  "chooseParkingSpot64 sps os =
     (let ob = (case os of None \<Rightarrow> \<lparr>entrance = None, w = None\<rparr> | Some ob \<Rightarrow> ob);
          e = (case entrance ob of None \<Rightarrow> (6, 70) | Some e \<Rightarrow> e);
          wt = (case w ob of
                  None \<Rightarrow> \<lparr>w_dist = 1, w_exit = lit (6 / 10), w_cong = lit (8 / 10),
                           w_angle = lit (2 / 10)\<rparr>
                | Some wt \<Rightarrow> wt)
      in spot_loop64 e wt sps 0 None PInf)"

text \<open>
  \<open>fact(n)\<close>, with \<open>r\<close> a binary64 value: the product overflows to \<open>+Infinity\<close>.
\<close>

function fact_loop64 :: "int \<Rightarrow> int \<Rightarrow> jsnum \<Rightarrow> jsnum" where
  "fact_loop64 i n r =
     (if i \<le> n then fact_loop64 (i + 1) n (dmul r (Fin (real_of_int i))) else r)"
  by pat_completeness auto
termination
  by (relation "measure (\<lambda>(i, n, r). nat (n + 1 - i))") auto

declare fact_loop64.simps [simp del]

definition fact64 :: "int \<Rightarrow> jsnum" where
  "fact64 n = fact_loop64 2 n (Fin 1)"

text \<open>
  \<open>Math.pow(a, k)\<close> for an integer \<open>k \<ge> 0\<close>: 1 when \<open>k\<close> is 0, whatever \<open>a\<close> is. For a
  finite \<open>a\<close> the standard leaves the precision to the engine; it is read here as the
  correctly rounded power.
\<close>

definition pow64 :: "jsnum \<Rightarrow> int \<Rightarrow> jsnum" where
  "pow64 a k =
     (if k = 0 then Fin 1
      else case a of
             Fin x \<Rightarrow> fl (x ^ nat k)
           | PInf \<Rightarrow> PInf
           | NInf \<Rightarrow> (if even k then PInf else NInf)
           | NaN \<Rightarrow> NaN)"

function erlang_sum_loop64 :: "jsnum \<Rightarrow> int \<Rightarrow> int \<Rightarrow> jsnum \<Rightarrow> jsnum" where
  "erlang_sum_loop64 a s k sm =
     (if k < s then erlang_sum_loop64 a s (k + 1) (dadd sm (ddiv (pow64 a k) (fact64 k)))
      else sm)"
  by pat_completeness auto
termination
  by (relation "measure (\<lambda>(a, s, k, sm). nat (s - k))") auto

declare erlang_sum_loop64.simps [simp del]

text \<open>
  \<open>erlangC\<close> and \<open>expectedWaitMinutes\<close>; the server count \<open>s\<close> is an integer below
  \<open>2\<^sup>5\<^sup>3\<close>, so that it is a binary64 value.
\<close>

definition erlangC64 :: "real \<Rightarrow> real \<Rightarrow> int \<Rightarrow> jsnum" where
  "erlangC64 lam mu s =
     (if s \<le> 0 \<or> mu \<le> 0 then Fin 1
      else let rho = ddiv (Fin lam) (dmul (Fin (real_of_int s)) (Fin mu)) in
        if jle (Fin 1) rho then Fin 1
        else let sm = erlang_sum_loop64 (ddiv (Fin lam) (Fin mu)) s 0 (Fin 0);
                 top = ddiv (pow64 (ddiv (Fin lam) (Fin mu)) s)
                            (dmul (fact64 s) (dsub (Fin 1) rho))
             in dmul top (ddiv (Fin 1) (dadd sm top)))"

definition expectedWaitMinutes64 :: "real \<Rightarrow> real \<Rightarrow> int \<Rightarrow> jsnum" where
  "expectedWaitMinutes64 lam mu s =
     (if s \<le> 0 \<or> mu \<le> 0 then PInf
      else let C = erlangC64 lam mu s;
               rho = ddiv (Fin lam) (dmul (Fin (real_of_int s)) (Fin mu)) in
        if jle (Fin 1) rho then PInf
        else ddiv C (dsub (dmul (Fin (real_of_int s)) (Fin mu)) (Fin lam)))"

section \<open>Auxiliary definitions for the statements\<close>

text \<open>A computed number that is a non-negative real or \<open>+Infinity\<close>.\<close>

definition nonneg_or_inf :: "jsnum \<Rightarrow> bool" where
  "nonneg_or_inf v = (case v of Fin t \<Rightarrow> 0 \<le> t | PInf \<Rightarrow> True | _ \<Rightarrow> False)"

text \<open>
  The predicted delay as the specification words it, from the queue lengths and the parameters
  alone: each ratio \<open>queueLength / (rate * servers)\<close> is \<open>+Infinity\<close> when its rate or server
  count is non-positive, and the total is
  \<open>mobileFactor * orderRatio(L) + payRatio + pickupRatio\<close>.
\<close>

definition spec_ratio :: "nat \<Rightarrow> real \<Rightarrow> int \<Rightarrow> jsnum" where
  "spec_ratio n rate servers =
     (if rate \<le> 0 \<or> servers \<le> 0 then PInf else Fin (real n / (rate * real_of_int servers)))"

definition spec_lane_total :: "nat \<Rightarrow> nat \<Rightarrow> nat \<Rightarrow> parameters \<Rightarrow> real \<Rightarrow> lane \<Rightarrow> jsnum" where
  "spec_lane_total nOrder nPay nPickup p mobileFactor L =
     jadd (jadd (jmul (Fin mobileFactor) (spec_ratio nOrder (orderRate p) (orderServers p L)))
                (spec_ratio nPay (payRate p) (payServers p)))
          (spec_ratio nPickup (pickupRate p) (pickupServers p))"

text \<open>The initial parameters of \<open>useSimulation\<close>, and two car objects, for concrete runs.\<close>

definition initial_params :: parameters where
  "initial_params =
     \<lparr>arrivalRate = 36, mobileShare = 35 / 100, divertThresholdMin = 7,
      orderRate = 8 / 10, payRate = 13 / 10, pickupRate = 1,
      orderServers = (\<lambda>L. 1), payServers = 1, pickupServers = 1, autoRebalance = True\<rparr>"

definition car0 :: car where
  "car0 = \<lparr>ref = 0, cid = 1 / 4, arrival = 0, isMobile = False,
           progress_order = None, progress_pay = None, progress_pickup = None,
           parkingSpotId = None, state = None, lane = None, readyAt = None\<rparr>"

definition car1 :: car where
  "car1 = car0\<lparr>ref := 1, cid := 3 / 4, isMobile := True\<rparr>"

text \<open>
  The predicted delay of the specification computed in binary64:
  \<open>mobileFactor * orderRatio(L) + payRatio + pickupRatio\<close>, where a ratio is
  \<open>queueLength / (rate * servers)\<close>, and \<open>+Infinity\<close> when its rate or server count is
  non-positive.
\<close>

definition spec_ratio64 :: "nat \<Rightarrow> real \<Rightarrow> int \<Rightarrow> jsnum" where
  "spec_ratio64 n rate servers =
     (if rate \<le> 0 \<or> servers \<le> 0 then PInf
      else ddiv (Fin (real n)) (dmul (Fin rate) (Fin (real_of_int servers))))"

definition spec_lane_total64 ::
  "nat \<Rightarrow> nat \<Rightarrow> nat \<Rightarrow> parameters \<Rightarrow> real \<Rightarrow> lane \<Rightarrow> jsnum" where
  "spec_lane_total64 nOrder nPay nPickup p mobileFactor L =
     dadd (dadd (dmul (Fin mobileFactor) (spec_ratio64 nOrder (orderRate p) (orderServers p L)))
                (spec_ratio64 nPay (payRate p) (payServers p)))
          (spec_ratio64 nPickup (pickupRate p) (pickupServers p))"

text \<open>
  The initial parameters as binary64 values, and a state the controls lead to: one car and
  one server in lane A, three cars and three servers in lane B, nothing in the pay and pickup
  queues. \<open>sys_tie'\<close> has other cars in the same places.
\<close>

definition initial_params64 :: parameters where
  "initial_params64 =
     \<lparr>arrivalRate = 36, mobileShare = lit (35 / 100), divertThresholdMin = 7,
      orderRate = lit (8 / 10), payRate = lit (13 / 10), pickupRate = 1,
      orderServers = (\<lambda>L. 1), payServers = 1, pickupServers = 1, autoRebalance = True\<rparr>"

definition sys_tie :: sys where
  "sys_tie =
     \<lparr>queues = \<lparr>order = (\<lambda>L. case L of LaneA \<Rightarrow> [car0] | LaneB \<Rightarrow> [car0, car0, car0]),
                 pay = [], pickup = [], curbside = []\<rparr>,
      params = initial_params64\<lparr>orderServers := (\<lambda>L. case L of LaneA \<Rightarrow> 1 | LaneB \<Rightarrow> 3)\<rparr>\<rparr>"

definition sys_tie' :: sys where
  "sys_tie' =
     \<lparr>queues = \<lparr>order = (\<lambda>L. case L of LaneA \<Rightarrow> [car1] | LaneB \<Rightarrow> [car1, car0, car1]),
                 pay = [], pickup = [], curbside = []\<rparr>,
      params = initial_params64\<lparr>orderServers := (\<lambda>L. case L of LaneA \<Rightarrow> 1 | LaneB \<Rightarrow> 3)\<rparr>\<rparr>"

definition queues_210 :: queue_net where
  "queues_210 = \<lparr>order = (\<lambda>L. case L of LaneA \<Rightarrow> [car0, car0] | LaneB \<Rightarrow> [car0]),
                  pay = [], pickup = [], curbside = []\<rparr>"

definition queues_210' :: queue_net where
  "queues_210' = \<lparr>order = (\<lambda>L. case L of LaneA \<Rightarrow> [car1, car0] | LaneB \<Rightarrow> [car1]),
                   pay = [], pickup = [], curbside = []\<rparr>"

text \<open>A spot that may be assigned, and the invariant of the loop of \<open>chooseParkingSpot\<close>
  over the spots \<open>pre\<close> already visited.\<close>

definition eligible :: "spot \<Rightarrow> bool" where
  "eligible s = (\<not> occupied s \<and> \<not> reserved s)"

definition spot_inv ::
  "real \<times> real \<Rightarrow> weights \<Rightarrow> spot list \<Rightarrow> nat option \<Rightarrow> jsnum \<Rightarrow> bool" where
  "spot_inv e wt pre best bestScore =
     (case best of
        None \<Rightarrow> bestScore = PInf \<and> list_all (\<lambda>s. \<not> eligible s) pre
      | Some j \<Rightarrow> j < length pre \<and> eligible (pre ! j)
                  \<and> bestScore = Fin (spot_score e wt (pre ! j))
                  \<and> list_all (\<lambda>s. eligible s \<longrightarrow>
                                spot_score e wt (pre ! j) \<le> spot_score e wt s) pre)"

text \<open>Three spots at the entrance: a reserved one, a free back-in one, and a free one.\<close>

definition spot_r :: spot where
  "spot_r = \<lparr>sid = 1, sx = 6, sy = 70, occupied = False, reserved = True,
             exitFriction = 0, localCongestion = 0, backIn = False\<rparr>"

definition spot_b :: spot where
  "spot_b = \<lparr>sid = 2, sx = 6, sy = 70, occupied = False, reserved = False,
             exitFriction = 4 / 10, localCongestion = 5 / 10, backIn = True\<rparr>"

definition spot_f :: spot where
  "spot_f = \<lparr>sid = 3, sx = 6, sy = 70, occupied = False, reserved = False,
             exitFriction = 2 / 10, localCongestion = 0, backIn = False\<rparr>"

text \<open>The invariant of the loop of \<open>chooseParkingSpot\<close> in binary64, over the spots \<open>pre\<close>
  already visited: a spot is taken only when its score is below \<open>+Infinity\<close>.\<close>

definition spot_inv64 ::
  "real \<times> real \<Rightarrow> weights \<Rightarrow> spot list \<Rightarrow> nat option \<Rightarrow> jsnum \<Rightarrow> bool" where
  "spot_inv64 e wt pre best bestScore =
     (case best of
        None \<Rightarrow> bestScore = PInf
                \<and> list_all (\<lambda>s. eligible s \<longrightarrow> \<not> jlt (spot_score64 e wt s) PInf) pre
      | Some j \<Rightarrow> j < length pre \<and> eligible (pre ! j)
                  \<and> bestScore = spot_score64 e wt (pre ! j) \<and> jlt bestScore PInf
                  \<and> list_all (\<lambda>s. eligible s \<longrightarrow> \<not> jlt (spot_score64 e wt s) bestScore) pre)"

text \<open>
  A free spot 94 metres from the entrance and a weight of \<open>1e308\<close> on the distance; and two
  free spots and weights whose scores are computed without rounding.
\<close>

definition spot_far :: spot where
  "spot_far = \<lparr>sid = 1, sx = 100, sy = 70, occupied = False, reserved = False,
               exitFriction = 0, localCongestion = 0, backIn = False\<rparr>"

definition w_huge :: weights where
  "w_huge = \<lparr>w_dist = lit (10 ^ 308), w_exit = lit (6 / 10), w_cong = lit (8 / 10),
             w_angle = lit (2 / 10)\<rparr>"

definition spot_p :: spot where
  "spot_p = \<lparr>sid = 2, sx = 9, sy = 74, occupied = False, reserved = False,
             exitFriction = 1 / 4, localCongestion = 0, backIn = False\<rparr>"

definition spot_q :: spot where
  "spot_q = \<lparr>sid = 3, sx = 6, sy = 70, occupied = False, reserved = False,
             exitFriction = 1 / 2, localCongestion = 1 / 2, backIn = False\<rparr>"

definition w_dyadic :: weights where
  "w_dyadic = \<lparr>w_dist = 1, w_exit = 1 / 2, w_cong = 1 / 4, w_angle = 0\<rparr>"

text \<open>A computed number that is \<open>+Infinity\<close> or a real number at least \<open>c\<close>; and one that
  is a real number between \<open>a\<close> and \<open>b\<close>.\<close>

definition at_least :: "real \<Rightarrow> jsnum \<Rightarrow> bool" where
  "at_least c v = (case v of Fin y \<Rightarrow> c \<le> y | PInf \<Rightarrow> True | _ \<Rightarrow> False)"

definition in_range :: "real \<Rightarrow> real \<Rightarrow> jsnum \<Rightarrow> bool" where
  "in_range a b v = (case v of Fin y \<Rightarrow> a \<le> y \<and> y \<le> b | _ \<Rightarrow> False)"

text \<open>The number of servers in the four stages, and the stage that the rebalancer feeds: the
  first entry after the sort.\<close>

definition total_servers :: "parameters \<Rightarrow> int" where
  "total_servers p =
     stage_get p OrderA + stage_get p OrderB + stage_get p Pay + stage_get p Pickup"

definition hottest_of :: "'a sys_scheme \<Rightarrow> stage" where
  "hottest_of sys = fst (hd (sort_js by_pressure_desc (pressure_entries sys)))"

text \<open>
  The part of \<open>rebalanceServers\<close> that follows the sort, as a function of the entries in
  the order the sort left them. With a pressure that is NaN that order is up to the engine, so
  the statements about the rebalancer are made for every order of the four entries.
\<close>

definition rebalance_from ::
  "(stage \<times> jsnum) list \<Rightarrow> 'a sys_scheme \<Rightarrow> 'a sys_scheme \<times> (stage \<times> stage) option" where
  "rebalance_from entries sys =
     (case entries of
        [] \<Rightarrow> (sys, None)
      | e # _ \<Rightarrow>
          (let hottest = fst e;
               (p, r) = donor_loop hottest (rev (map fst entries)) (params sys)
           in (sys\<lparr>params := p\<rparr>, r)))"

text \<open>The order the sort establishes: the pressure of \<open>b\<close> is at most that of \<open>a\<close>.\<close>

definition pressure_ge :: "stage \<times> jsnum \<Rightarrow> stage \<times> jsnum \<Rightarrow> bool" where
  "pressure_ge a b = jle (snd b) (snd a)"

text \<open>The identities of the car objects in the queues, as a multiset.\<close>

definition refs :: "queue_net \<Rightarrow> nat multiset" where
  "refs q = mset (map ref (all_cars q))"

text \<open>
  The running average agrees with the log of the wait samples: as many samples as cars served,
  and an average that is their sum divided by their number (0 with no sample).
\<close>

definition avg_ok :: "metric_set \<Rightarrow> bool" where
  "avg_ok m = (served m = length (waits m)
               \<and> avgWait m * real (length (waits m)) = sum_list (waits m)
               \<and> (waits m = [] \<longrightarrow> avgWait m = 0))"

text \<open>
  A concrete run: a reset state with three spots at the entrance, a first tick of 0.08 minutes
  at time 0 in which two cars arrive (the first interarrival draw is 0) and the first of them
  passes the three stages, and a second tick of one minute at time 5 in which the second car
  is served.
\<close>

definition demo_draws :: "real list" where
  "demo_draws = [1 / 4, 1 / 2, 0, 3 / 4, 1 / 5, 1 - exp (- 1), 1 / 2]"

definition demo_reset :: sim where
  "demo_reset = reset_state initial_params [spot_r, spot_b, spot_f] (Fin 0)"

definition demo_car :: car where
  "demo_car = \<lparr>ref = 1, cid = 3 / 4, arrival = 0, isMobile = True,
               progress_order = Some 0, progress_pay = None, progress_pickup = None,
               parkingSpotId = None, state = None, lane = Some LaneB, readyAt = None\<rparr>"

definition demo_state1 :: sim where
  "demo_state1 =
     \<lparr>queues = \<lparr>order = (\<lambda>L. [])(LaneA := [], LaneB := []), pay = [demo_car],
                 pickup = [], curbside = []\<rparr>,
      params = initial_params, spots = [spot_r, spot_b, spot_f],
      metrics = \<lparr>arrivals = 2, served = 1, parked = 0, avgWait = 0, maxWip = 1,
                  history = [(0, 1, 0)], waits = [0]\<rparr>,
      nextArrival = Fin (119 / 75),
      orderClock = (\<lambda>L. Fin 0)(LaneA := Fin (5 / 4), LaneB := Fin (5 / 4)),
      payClock = Fin (10 / 13), pickupClock = Fin 1\<rparr>"

definition demo_arrived :: sim where
  "demo_arrived =
     \<lparr>queues = \<lparr>order = (\<lambda>L. [])
                   (LaneA := [\<lparr>ref = 0, cid = 1 / 4, arrival = 0, isMobile = False,
                      progress_order = None, progress_pay = None, progress_pickup = None,
                      parkingSpotId = None, state = None, lane = Some LaneA, readyAt = None\<rparr>],
                    LaneB := [demo_car\<lparr>progress_order := None\<rparr>]),
                 pay = [], pickup = [], curbside = []\<rparr>,
      params = initial_params, spots = [spot_r, spot_b, spot_f],
      metrics = \<lparr>arrivals = 2, served = 0, parked = 0, avgWait = 0, maxWip = 0,
                  history = [], waits = []\<rparr>,
      nextArrival = Fin (119 / 75), orderClock = (\<lambda>L. Fin 0),
      payClock = Fin 0, pickupClock = Fin 0\<rparr>"

definition demo_state2 :: sim where
  "demo_state2 =
     \<lparr>queues = \<lparr>order = (\<lambda>L. [])(LaneA := [], LaneB := []), pay = [],
                 pickup = [], curbside = []\<rparr>,
      params = initial_params, spots = [spot_r, spot_b, spot_f],
      metrics = \<lparr>arrivals = 2, served = 2, parked = 0, avgWait = 5 / 2, maxWip = 1,
                  history = [(0, 1, 0), (5, 0, 5 / 2)], waits = [0, 5]\<rparr>,
      nextArrival = Fin (44 / 75),
      orderClock = (\<lambda>L. Fin 0)(LaneA := Fin (5 / 4), LaneB := Fin (5 / 4)),
      payClock = Fin (10 / 13), pickupClock = Fin 1\<rparr>"

text \<open>
  The state after \<open>reset()\<close> is called in \<open>demo_state1\<close> while the simulation is running
  (the interarrival time drawn is two minutes), and the state after the next step, a tick of
  one minute at time 5.
\<close>

definition demo_stale1 :: sim where
  "demo_stale1 =
     demo_state1\<lparr>metrics := zero_metrics, nextArrival := Fin 2, orderClock := (\<lambda>L. Fin 0),
                  payClock := Fin 0, pickupClock := Fin 0\<rparr>"

definition demo_stale2 :: sim where
  "demo_stale2 =
     \<lparr>queues = \<lparr>order = (\<lambda>L. [])(LaneA := [], LaneB := []), pay = [],
                 pickup = [], curbside = []\<rparr>,
      params = initial_params, spots = [spot_r, spot_b, spot_f],
      metrics = \<lparr>arrivals = 0, served = 1, parked = 0, avgWait = 5, maxWip = 0,
                  history = [(5, 0, 5)], waits = [5]\<rparr>,
      nextArrival = Fin 1,
      orderClock = (\<lambda>L. Fin 0)(LaneA := Fin (5 / 4), LaneB := Fin (5 / 4)),
      payClock = Fin (10 / 13), pickupClock = Fin 1\<rparr>"

text \<open>A busy state: two cars in lane A and one in lane B, a divert threshold of one minute,
  and the spots \<open>sps\<close>.\<close>

definition demo_busy :: "spot list \<Rightarrow> sim" where
  "demo_busy sps =
     \<lparr>queues = queues_210, params = initial_params\<lparr>divertThresholdMin := 1\<rparr>, spots = sps,
      metrics = zero_metrics\<lparr>arrivals := 3\<rparr>, nextArrival = Fin 0,
      orderClock = (\<lambda>L. Fin 0), payClock = Fin 0, pickupClock = Fin 0\<rparr>"

section \<open>Properties of the binary64 rounding\<close>

lemma round_even_char:
  "\<bar>real_of_int (round_even t) - t\<bar> < 1 / 2
   \<or> (\<bar>real_of_int (round_even t) - t\<bar> = 1 / 2 \<and> even (round_even t))"
proof -
  define n where "n = \<lfloor>t\<rfloor>"
  define r where "r = t - real_of_int n"
  have r: "0 \<le> r" "r < 1" unfolding r_def n_def by linarith+
  consider "r < 1 / 2" | "1 / 2 < r" | "r = 1 / 2" "even n" | "r = 1 / 2" "odd n"
    by fastforce
  then show ?thesis
  proof cases
    case 1
    then have k: "round_even t = n" by (simp add: round_even_def Let_def n_def r_def)
    have "\<bar>real_of_int n - t\<bar> < 1 / 2" using 1 r unfolding r_def by linarith
    then show ?thesis unfolding k by (rule disjI1)
  next
    case 2
    then have k: "round_even t = n + 1" by (simp add: round_even_def Let_def n_def r_def)
    have "\<bar>real_of_int (n + 1) - t\<bar> < 1 / 2" using 2 r unfolding r_def by simp
    then show ?thesis unfolding k by (rule disjI1)
  next
    case 3
    then have k: "round_even t = n" by (simp add: round_even_def Let_def n_def r_def)
    have "\<bar>real_of_int n - t\<bar> = 1 / 2" using 3(1) unfolding r_def by linarith
    then show ?thesis unfolding k using 3(2) by blast
  next
    case 4
    then have k: "round_even t = n + 1" by (simp add: round_even_def Let_def n_def r_def)
    have "\<bar>real_of_int (n + 1) - t\<bar> = 1 / 2" using 4(1) unfolding r_def by simp
    moreover have "even (n + 1)" using 4(2) by simp
    ultimately show ?thesis unfolding k by blast
  qed
qed

lemma round_even_unique:
  assumes "\<bar>real_of_int m - t\<bar> < 1 / 2 \<or> (\<bar>real_of_int m - t\<bar> = 1 / 2 \<and> even m)"
  shows "round_even t = m"
proof -
  let ?k = "round_even t"
  have c: "\<bar>real_of_int ?k - t\<bar> < 1 / 2 \<or> (\<bar>real_of_int ?k - t\<bar> = 1 / 2 \<and> even ?k)"
    by (rule round_even_char)
  have "\<bar>real_of_int ?k - real_of_int m\<bar> \<le> 1" using c assms by linarith
  then have d: "\<bar>?k - m\<bar> \<le> 1" by linarith
  show ?thesis
  proof (rule ccontr)
    assume ne: "?k \<noteq> m"
    with d have k: "?k = m + 1 \<or> ?k = m - 1" by linarith
    then have "\<bar>real_of_int ?k - real_of_int m\<bar> = 1" by auto
    then have e: "\<bar>real_of_int ?k - t\<bar> = 1 / 2" "\<bar>real_of_int m - t\<bar> = 1 / 2"
      using c assms by linarith+
    then have "even ?k" "even m" using c assms by auto
    with k show False by auto
  qed
qed

lemma round_even_bound: "\<bar>real_of_int (round_even t) - t\<bar> \<le> 1 / 2"
  using round_even_char [of t] by linarith

lemma round_even_int [simp]: "round_even (real_of_int n) = n"
  by (rule round_even_unique) simp

lemma round_even_minus: "round_even (- t) = - round_even t"
proof (rule round_even_unique)
  have "\<bar>real_of_int (- round_even t) - - t\<bar> = \<bar>real_of_int (round_even t) - t\<bar>" by simp
  then show "\<bar>real_of_int (- round_even t) - - t\<bar> < 1 / 2
    \<or> (\<bar>real_of_int (- round_even t) - - t\<bar> = 1 / 2 \<and> even (- round_even t))"
    using round_even_char [of t] by simp
qed

lemma round_even_mono:
  assumes "s \<le> t"
  shows "round_even s \<le> round_even t"
proof (cases "s = t")
  case True
  then show ?thesis by simp
next
  case False
  with assms have "s < t" by simp
  moreover have "real_of_int (round_even s) \<le> s + 1 / 2" using round_even_bound [of s] by linarith
  moreover have "t - 1 / 2 \<le> real_of_int (round_even t)" using round_even_bound [of t] by linarith
  ultimately have "real_of_int (round_even s) < real_of_int (round_even t) + 1" by linarith
  then show ?thesis by linarith
qed

lemma ulp_pos: "0 < ulp x"
  by (simp add: ulp_def)

lemma binade_ge: "- 1022 \<le> binade x"
  by (simp add: binade_def)

lemma floor_log2_bounds:
  assumes "x \<noteq> 0"
  shows "2 powi \<lfloor>log 2 \<bar>x\<bar>\<rfloor> \<le> \<bar>x\<bar>" and "\<bar>x\<bar> < 2 powi (\<lfloor>log 2 \<bar>x\<bar>\<rfloor> + 1)"
proof -
  have p: "0 < \<bar>x\<bar>" using assms by simp
  have "2 powr real_of_int \<lfloor>log 2 \<bar>x\<bar>\<rfloor> \<le> \<bar>x\<bar>
        \<and> \<bar>x\<bar> < 2 powr (real_of_int \<lfloor>log 2 \<bar>x\<bar>\<rfloor> + 1)"
    using floor_log_eq_powr_iff [OF p, of 2 "\<lfloor>log 2 \<bar>x\<bar>\<rfloor>"] by simp
  moreover have "real_of_int \<lfloor>log 2 \<bar>x\<bar>\<rfloor> + 1 = real_of_int (\<lfloor>log 2 \<bar>x\<bar>\<rfloor> + 1)" by simp
  ultimately show "2 powi \<lfloor>log 2 \<bar>x\<bar>\<rfloor> \<le> \<bar>x\<bar>" and "\<bar>x\<bar> < 2 powi (\<lfloor>log 2 \<bar>x\<bar>\<rfloor> + 1)"
    by (simp_all only: powr_real_of_int' [of 2, simplified])
qed

lemma floor_log2_eq:
  assumes "2 powi e \<le> \<bar>x\<bar>" and "\<bar>x\<bar> < 2 powi (e + 1)"
  shows "\<lfloor>log 2 \<bar>x\<bar>\<rfloor> = e"
proof -
  have "0 < (2::real) powi e" by simp
  with assms(1) have p: "0 < \<bar>x\<bar>" by linarith
  have "real_of_int e + 1 = real_of_int (e + 1)" by simp
  then have "2 powr real_of_int e \<le> \<bar>x\<bar> \<and> \<bar>x\<bar> < 2 powr (real_of_int e + 1)"
    using assms by (simp only: powr_real_of_int' [of 2, simplified])
  then show ?thesis using floor_log_eq_powr_iff [OF p, of 2 e] by simp
qed

lemma binade_eq:
  assumes "- 1022 \<le> e" and "2 powi e \<le> \<bar>x\<bar>" and "\<bar>x\<bar> < 2 powi (e + 1)"
  shows "binade x = e"
  using floor_log2_eq [OF assms(2,3)] assms(1) by (simp add: binade_def)

lemma binade_upper: "x \<noteq> 0 \<Longrightarrow> \<bar>x\<bar> < 2 powi (binade x + 1)"
proof -
  assume x: "x \<noteq> 0"
  have "(2::real) powi (\<lfloor>log 2 \<bar>x\<bar>\<rfloor> + 1) \<le> 2 powi (binade x + 1)"
    by (rule power_int_increasing) (simp_all add: binade_def)
  with floor_log2_bounds(2) [OF x] show ?thesis by linarith
qed

lemma binade_lower: "x \<noteq> 0 \<Longrightarrow> - 1022 < binade x \<Longrightarrow> 2 powi binade x \<le> \<bar>x\<bar>"
proof -
  assume x: "x \<noteq> 0" and b: "- 1022 < binade x"
  then have "binade x = \<lfloor>log 2 \<bar>x\<bar>\<rfloor>" by (simp add: binade_def max_def split: if_splits)
  with floor_log2_bounds(1) [OF x] show ?thesis by simp
qed

lemma binade_low:
  assumes "x \<noteq> 0" and "\<bar>x\<bar> < 2 powi (- 1022)"
  shows "binade x = - 1022"
proof (rule ccontr)
  assume "binade x \<noteq> - 1022"
  with binade_ge [of x] have b: "- 1022 < binade x" by simp
  from binade_lower [OF assms(1) b] have "2 powi binade x \<le> \<bar>x\<bar>" .
  moreover have "(2::real) powi (- 1022) \<le> 2 powi binade x"
    by (rule power_int_increasing) (use b in simp_all)
  ultimately show False using assms(2) by linarith
qed

lemma binade_minus [simp]: "binade (- x) = binade x"
  by (simp add: binade_def)

lemma ulp_minus [simp]: "ulp (- x) = ulp x"
  by (simp add: ulp_def)

lemma nearest_minus: "nearest (- x) = - nearest x"
  by (simp add: nearest_def round_even_minus)

lemma round_even_0 [simp]: "round_even 0 = 0"
  using round_even_int [of 0] by simp

lemma nearest_0 [simp]: "nearest 0 = 0"
  by (simp add: nearest_def)

lemma nearest_bound: "\<bar>nearest x - x\<bar> \<le> ulp x / 2"
proof -
  have u: "0 < ulp x" by (rule ulp_pos)
  have "\<bar>real_of_int (round_even (x / ulp x)) - x / ulp x\<bar> \<le> 1 / 2" by (rule round_even_bound)
  then have "\<bar>real_of_int (round_even (x / ulp x)) - x / ulp x\<bar> * ulp x \<le> 1 / 2 * ulp x"
    using u by (intro mult_right_mono) simp_all
  moreover have "\<bar>real_of_int (round_even (x / ulp x)) - x / ulp x\<bar> * ulp x = \<bar>nearest x - x\<bar>"
  proof -
    have "\<bar>real_of_int (round_even (x / ulp x)) - x / ulp x\<bar> * ulp x
          = \<bar>(real_of_int (round_even (x / ulp x)) - x / ulp x) * ulp x\<bar>"
      using u by (simp add: abs_mult)
    also have "(real_of_int (round_even (x / ulp x)) - x / ulp x) * ulp x = nearest x - x"
      using u by (simp add: nearest_def algebra_simps)
    finally show ?thesis .
  qed
  ultimately show ?thesis by simp
qed

lemma nearest_nonneg: "0 \<le> x \<Longrightarrow> 0 \<le> nearest x"
proof -
  assume "0 \<le> x"
  then have "0 \<le> x / ulp x" using ulp_pos [of x] by simp
  then have "round_even 0 \<le> round_even (x / ulp x)" by (rule round_even_mono)
  then have "0 \<le> round_even (x / ulp x)" using round_even_int [of 0] by simp
  then show ?thesis using ulp_pos [of x] by (simp add: nearest_def)
qed

lemma nearest_nonpos: "x \<le> 0 \<Longrightarrow> nearest x \<le> 0"
  using nearest_nonneg [of "- x"] by (simp add: nearest_minus)

lemma pow2_less_iff: "(2::real) powi a < 2 powi b \<longleftrightarrow> a < b"
proof
  assume l: "(2::real) powi a < 2 powi b"
  show "a < b"
  proof (rule ccontr)
    assume "\<not> a < b"
    then have "(2::real) powi b \<le> 2 powi a" by (intro power_int_increasing) simp_all
    with l show False by simp
  qed
next
  assume "a < b"
  then show "(2::real) powi a < 2 powi b" by (intro power_int_strict_increasing) simp_all
qed

lemma pow2_le_iff: "(2::real) powi a \<le> 2 powi b \<longleftrightarrow> a \<le> b"
  using pow2_less_iff [of b a] by (simp add: not_less [symmetric])

lemma nearest_le_grid:
  assumes "x \<le> real_of_int k * ulp x"
  shows "nearest x \<le> real_of_int k * ulp x"
proof -
  have "x / ulp x \<le> real_of_int k" using assms ulp_pos [of x] by (simp add: field_simps)
  then have "round_even (x / ulp x) \<le> round_even (real_of_int k)" by (rule round_even_mono)
  then have "real_of_int (round_even (x / ulp x)) \<le> real_of_int k" by simp
  then show ?thesis unfolding nearest_def using ulp_pos [of x] by (intro mult_right_mono) simp_all
qed

lemma nearest_ge_grid:
  assumes "real_of_int k * ulp x \<le> x"
  shows "real_of_int k * ulp x \<le> nearest x"
proof -
  have "real_of_int k \<le> x / ulp x" using assms ulp_pos [of x] by (simp add: field_simps)
  then have "round_even (real_of_int k) \<le> round_even (x / ulp x)" by (rule round_even_mono)
  then have "real_of_int k \<le> real_of_int (round_even (x / ulp x))" by simp
  then show ?thesis unfolding nearest_def using ulp_pos [of x] by (intro mult_right_mono) simp_all
qed

lemma pow2_ulp: "2 powi binade x = real_of_int (2 ^ 52) * ulp x"
proof -
  have "(2::real) powi binade x = 2 powi (52 + (binade x - 52))" by simp
  also have "\<dots> = 2 powi 52 * 2 powi (binade x - 52)" by (rule power_int_add) simp
  finally show ?thesis by (simp add: ulp_def)
qed

lemma pow2_ulp': "2 powi (binade x + 1) = real_of_int (2 ^ 53) * ulp x"
proof -
  have "binade x + 1 = 53 + (binade x - 52)" by simp
  then have "(2::real) powi (binade x + 1) = 2 powi (53 + (binade x - 52))" by (rule arg_cong)
  also have "\<dots> = 2 powi 53 * 2 powi (binade x - 52)" by (rule power_int_add) simp
  finally show ?thesis by (simp add: ulp_def)
qed

lemma nearest_upper: "x \<noteq> 0 \<Longrightarrow> nearest x \<le> 2 powi (binade x + 1)"
proof -
  assume x: "x \<noteq> 0"
  have "x \<le> \<bar>x\<bar>" by simp
  also have "\<bar>x\<bar> \<le> 2 powi (binade x + 1)" using binade_upper [OF x] by simp
  finally have "x \<le> real_of_int (2 ^ 53) * ulp x" by (simp only: pow2_ulp')
  then have "nearest x \<le> real_of_int (2 ^ 53) * ulp x" by (rule nearest_le_grid)
  then show ?thesis by (simp only: pow2_ulp')
qed

lemma nearest_lower: "0 < x \<Longrightarrow> - 1022 < binade x \<Longrightarrow> 2 powi binade x \<le> nearest x"
proof -
  assume x: "0 < x" and b: "- 1022 < binade x"
  have "2 powi binade x \<le> x" using binade_lower [of x] x b by simp
  then have "real_of_int (2 ^ 52) * ulp x \<le> x" by (simp only: pow2_ulp)
  then have "real_of_int (2 ^ 52) * ulp x \<le> nearest x" by (rule nearest_ge_grid)
  then show ?thesis by (simp only: pow2_ulp)
qed

lemma binade_mono: "0 < x \<Longrightarrow> x \<le> y \<Longrightarrow> binade x \<le> binade y"
proof -
  assume x: "0 < x" and xy: "x \<le> y"
  then have "log 2 \<bar>x\<bar> \<le> log 2 \<bar>y\<bar>" by simp
  then have "\<lfloor>log 2 \<bar>x\<bar>\<rfloor> \<le> \<lfloor>log 2 \<bar>y\<bar>\<rfloor>" by (rule floor_mono)
  then show ?thesis by (simp add: binade_def)
qed

lemma nearest_mono_pos:
  assumes "0 < x" and "x \<le> y"
  shows "nearest x \<le> nearest y"
proof (cases "binade x = binade y")
  case True
  then have u: "ulp x = ulp y" by (simp add: ulp_def)
  have "x / ulp y \<le> y / ulp y" using assms(2) ulp_pos [of y] by (simp add: divide_right_mono)
  then have "round_even (x / ulp y) \<le> round_even (y / ulp y)" by (rule round_even_mono)
  then have "real_of_int (round_even (x / ulp y)) * ulp y \<le> real_of_int (round_even (y / ulp y)) * ulp y"
    using ulp_pos [of y] by (intro mult_right_mono) simp_all
  then show ?thesis by (simp add: nearest_def u)
next
  case False
  with binade_mono [OF assms] have lt: "binade x < binade y" by simp
  have y: "0 < y" using assms by simp
  have "nearest x \<le> 2 powi (binade x + 1)" using assms(1) by (intro nearest_upper) simp
  also have "(2::real) powi (binade x + 1) \<le> 2 powi binade y"
    by (rule power_int_increasing) (use lt in simp_all)
  also have "2 powi binade y \<le> nearest y"
    using y lt binade_ge [of x] by (intro nearest_lower) simp_all
  finally show ?thesis .
qed

lemma nearest_mono:
  assumes "x \<le> y"
  shows "nearest x \<le> nearest y"
proof -
  consider "0 < x" | "x \<le> 0" "0 \<le> y" | "x \<le> 0" "y < 0" by linarith
  then show ?thesis
  proof cases
    case 1
    then show ?thesis using assms by (rule nearest_mono_pos)
  next
    case 2
    then show ?thesis using nearest_nonpos [of x] nearest_nonneg [of y] by simp
  next
    case 3
    then have "0 < - y" "- y \<le> - x" using assms by simp_all
    then have "nearest (- y) \<le> nearest (- x)" by (rule nearest_mono_pos)
    then show ?thesis by (simp add: nearest_minus)
  qed
qed

lemma fl_cases:
  "fl x = (if 2 ^ 1024 \<le> nearest x then PInf
           else if nearest x \<le> - (2 ^ 1024) then NInf else Fin (nearest x))"
proof -
  have a: "0 < x" if "2 ^ 1024 \<le> nearest x"
  proof (rule ccontr)
    assume "\<not> 0 < x"
    then have "nearest x \<le> 0" by (intro nearest_nonpos) simp
    with that show False by (smt (verit) zero_less_power)
  qed
  have b: "\<not> 0 < x" if "nearest x \<le> - (2 ^ 1024)"
  proof
    assume "0 < x"
    then have "0 \<le> nearest x" by (intro nearest_nonneg) simp
    with that show False by (smt (verit) zero_less_power)
  qed
  show ?thesis using a b by (auto simp: fl_def abs_le_iff abs_if)
qed

lemma fl_mono: "x \<le> y \<Longrightarrow> jle (fl x) (fl y)"
  using nearest_mono [of x y] by (auto simp: fl_cases)

lemma fl_not_NaN [simp]: "fl x \<noteq> NaN"
  by (simp add: fl_cases)

lemma nearest_id:
  assumes "x = real_of_int m * 2 powi e" and "\<bar>m\<bar> < 2 ^ 53" and "- 1074 \<le> e"
  shows "nearest x = x"
proof (cases "x = 0")
  case True
  then show ?thesis by simp
next
  case False
  define b where "b = binade x"
  have be: "b - 52 \<le> e"
  proof (cases "b = - 1022")
    case True
    then show ?thesis using assms(3) by simp
  next
    case False
    then have "- 1022 < b" using binade_ge [of x] by (simp add: b_def)
    then have "2 powi b \<le> \<bar>x\<bar>" using binade_lower [of x] \<open>x \<noteq> 0\<close> by (simp add: b_def)
    also have "\<bar>x\<bar> = real_of_int \<bar>m\<bar> * 2 powi e" by (simp add: assms(1) abs_mult)
    also have "\<dots> < real_of_int (2 ^ 53) * 2 powi e"
      using assms(2) by (intro mult_strict_right_mono) simp_all
    also have "\<dots> = 2 powi (53 + e)" by (simp add: power_int_add)
    finally have "(2::real) powi b < 2 powi (53 + e)" .
    then have "b < 53 + e" by (simp only: pow2_less_iff)
    then show ?thesis by simp
  qed
  define k where "k = nat (e - (b - 52))"
  have e: "e = (b - 52) + int k" using be by (simp add: k_def)
  have ux: "ulp x = 2 powi (b - 52)" by (simp add: ulp_def b_def)
  have me: "real_of_int m * 2 powi e = real_of_int (m * 2 ^ k) * 2 powi (b - 52)"
    unfolding e by (simp add: power_int_add)
  have xe: "x = real_of_int (m * 2 ^ k) * ulp x"
    unfolding ux using assms(1) me by (rule trans)
  then have "x / ulp x = real_of_int (m * 2 ^ k) * ulp x / ulp x"
    by (rule arg_cong [where f = "\<lambda>t. t / ulp x"])
  also have "\<dots> = real_of_int (m * 2 ^ k)" using ulp_pos [of x] by simp
  finally have "round_even (x / ulp x) = m * 2 ^ k" by (simp only: round_even_int)
  then have "nearest x = real_of_int (m * 2 ^ k) * ulp x" by (simp only: nearest_def)
  with xe show ?thesis by simp
qed

lemma fl_Fin_nearest: "\<bar>nearest x\<bar> < 2 ^ 1024 \<Longrightarrow> fl x = Fin (nearest x)"
  by (simp add: fl_def)

lemma fl_id:
  assumes "is_double x"
  shows "fl x = Fin x"
proof -
  from assms obtain m e where m: "\<bar>m\<bar> < 2 ^ 53" and e: "- 1074 \<le> e" "e \<le> 971"
    and x: "x = real_of_int m * 2 powi e"
    unfolding is_double_def by blast
  have n: "nearest x = x" using x m e(1) by (rule nearest_id)
  have "\<bar>x\<bar> = real_of_int \<bar>m\<bar> * 2 powi e" by (simp add: x abs_mult)
  also have "\<dots> \<le> real_of_int \<bar>m\<bar> * 2 powi 971"
    using e(2) by (intro mult_left_mono power_int_increasing) simp_all
  also have "\<dots> < real_of_int (2 ^ 53) * 2 powi 971"
    using m by (intro mult_strict_right_mono) simp_all
  also have "\<dots> = 2 ^ 1024" by simp
  finally have "\<bar>nearest x\<bar> < 2 ^ 1024" by (simp only: n)
  then show ?thesis by (simp add: fl_Fin_nearest n)
qed

lemma is_double_int: "\<bar>n\<bar> < 2 ^ 53 \<Longrightarrow> is_double (real_of_int n)"
  unfolding is_double_def by (rule exI [of _ n], rule exI [of _ 0]) simp

lemma is_double_pow2: "- 1074 \<le> e \<Longrightarrow> e \<le> 1023 \<Longrightarrow> is_double (2 powi e)"
proof -
  assume e: "- 1074 \<le> e" "e \<le> 1023"
  show ?thesis
  proof (cases "e \<le> 971")
    case True
    then show ?thesis unfolding is_double_def
      using e by (intro exI [of _ 1] exI [of _ e]) simp
  next
    case False
    have "(2::real) powi e = 2 powi ((e - 971) + 971)" by simp
    also have "\<dots> = 2 powi (e - 971) * 2 powi 971" by (rule power_int_add) simp
    also have "(2::real) powi (e - 971) = 2 ^ nat (e - 971)"
      using False by (simp add: power_int_def)
    finally have eq: "(2::real) powi e = real_of_int (2 ^ nat (e - 971)) * 2 powi 971" by simp
    have "nat (e - 971) \<le> 52" using e by simp
    then have "(2::int) ^ nat (e - 971) \<le> 2 ^ 52" by (intro power_increasing) simp_all
    then have "\<bar>(2::int) ^ nat (e - 971)\<bar> < 2 ^ 53" by simp
    then show ?thesis unfolding is_double_def
      using eq by (intro exI [of _ "2 ^ nat (e - 971)"] exI [of _ 971]) simp
  qed
qed

lemma fl_0 [simp]: "fl 0 = Fin 0"
  by (simp add: fl_def)

lemma fl_int: "\<bar>n\<bar> < 2 ^ 53 \<Longrightarrow> fl (real_of_int n) = Fin (real_of_int n)"
  by (intro fl_id is_double_int)

lemma fl_1 [simp]: "fl 1 = Fin 1"
  using fl_int [of 1] by simp

lemma ulp_le_rel:
  assumes "2 powi (- 1022) \<le> \<bar>x\<bar>"
  shows "ulp x \<le> \<bar>x\<bar> / 2 ^ 52"
proof -
  have x: "x \<noteq> 0" using assms by (smt (verit) zero_less_power_int abs_zero)
  have "2 powi binade x \<le> \<bar>x\<bar>"
  proof (cases "binade x = - 1022")
    case True
    then show ?thesis using assms by simp
  next
    case False
    then have "- 1022 < binade x" using binade_ge [of x] by simp
    then show ?thesis using x by (intro binade_lower)
  qed
  then have "real_of_int (2 ^ 52) * ulp x \<le> \<bar>x\<bar>" by (simp only: pow2_ulp)
  then show ?thesis by (simp add: field_simps)
qed

lemma nearest_rel:
  assumes "2 powi (- 1022) \<le> \<bar>x\<bar>"
  shows "\<bar>nearest x - x\<bar> \<le> \<bar>x\<bar> / 2 ^ 53"
proof -
  have "\<bar>nearest x - x\<bar> \<le> ulp x / 2" by (rule nearest_bound)
  also have "\<dots> \<le> (\<bar>x\<bar> / 2 ^ 52) / 2" using ulp_le_rel [OF assms] by simp
  also have "\<dots> = \<bar>x\<bar> / 2 ^ 53" by simp
  finally show ?thesis .
qed

lemma nearest_abs:
  assumes "\<bar>x\<bar> < 2 powi (- 1022)"
  shows "\<bar>nearest x - x\<bar> \<le> 2 powi (- 1075)"
proof (cases "x = 0")
  case True
  then show ?thesis by simp
next
  case False
  then have "binade x = - 1022" using assms by (rule binade_low)
  then have "ulp x = 2 powi (- 1074)" by (simp add: ulp_def)
  moreover have "(2::real) powi (- 1074) / 2 = 2 powi (- 1075)"
    by (simp add: power_int_minus field_simps)
  ultimately show ?thesis using nearest_bound [of x] by simp
qed

lemma nearest_err: "\<bar>nearest x - x\<bar> \<le> \<bar>x\<bar> / 2 ^ 53 + 2 powi (- 1075)"
proof (cases "\<bar>x\<bar> < 2 powi (- 1022)")
  case True
  from nearest_abs [OF this] show ?thesis by (smt (verit) divide_nonneg_pos zero_less_power abs_ge_zero)
next
  case False
  then have "2 powi (- 1022) \<le> \<bar>x\<bar>" by simp
  from nearest_rel [OF this] show ?thesis by (smt (verit) zero_less_power_int)
qed

lemma nearest_pow2: "- 1074 \<le> e \<Longrightarrow> nearest (2 powi e) = 2 powi e"
  by (rule nearest_id [of _ 1]) simp_all

lemma fl_PInf:
  assumes "2 ^ 1024 \<le> x"
  shows "fl x = PInf"
proof -
  have "nearest (2 powi 1024) \<le> nearest x" using assms by (intro nearest_mono) simp
  then have "2 ^ 1024 \<le> nearest x" using nearest_pow2 [of 1024] by simp
  then show ?thesis by (simp add: fl_cases)
qed

lemma fl_zero:
  assumes "\<bar>x\<bar> \<le> 2 powi (- 1075)"
  shows "fl x = Fin 0"
proof (cases "x = 0")
  case True
  then show ?thesis by simp
next
  case False
  have "(2::real) powi (- 1075) < 2 powi (- 1022)" by (simp only: pow2_less_iff)
  with assms have "\<bar>x\<bar> < 2 powi (- 1022)" by simp
  with False have "binade x = - 1022" by (rule binade_low)
  then have u: "ulp x = 2 powi (- 1074)" by (simp add: ulp_def)
  define c :: real where "c = 2 powi (- 1074)"
  have c: "0 < c" by (simp add: c_def)
  have "(2::real) powi (- 1075) = 2 powi (- 1074 + - 1)" by simp
  also have "\<dots> = 2 powi (- 1074) * 2 powi (- 1)" by (rule power_int_add) simp
  finally have h: "(2::real) powi (- 1075) = c / 2" by (simp add: c_def)
  have "\<bar>x\<bar> \<le> c / 2" using assms by (simp only: h)
  then have "\<bar>x / c\<bar> \<le> 1 / 2" using c by (simp add: field_simps abs_divide)
  then have "\<bar>x / ulp x\<bar> \<le> 1 / 2" by (simp only: u c_def)
  then have "\<bar>real_of_int 0 - x / ulp x\<bar> < 1 / 2
      \<or> (\<bar>real_of_int 0 - x / ulp x\<bar> = 1 / 2 \<and> even (0::int))"
    by (simp only: of_int_0 diff_0 abs_minus_cancel) auto
  then have "round_even (x / ulp x) = 0" by (rule round_even_unique)
  then have "nearest x = 0" by (simp add: nearest_def)
  then show ?thesis by (simp add: fl_def)
qed

lemma fl_nonneg: "0 \<le> x \<Longrightarrow> fl x = PInf \<or> (\<exists>y. fl x = Fin y \<and> 0 \<le> y)"
  using nearest_nonneg [of x] by (auto simp: fl_cases)

lemma fl_ge:
  assumes "is_double a" and "a \<le> x"
  shows "fl x = PInf \<or> (\<exists>y. fl x = Fin y \<and> a \<le> y)"
proof -
  have "jle (fl a) (fl x)" using assms(2) by (rule fl_mono)
  then show ?thesis using fl_id [OF assms(1)] by (cases "fl x") simp_all
qed

lemma fl_le:
  assumes "is_double b" and "x \<le> b"
  shows "fl x = NInf \<or> (\<exists>y. fl x = Fin y \<and> y \<le> b)"
proof -
  have "jle (fl x) (fl b)" using assms(2) by (rule fl_mono)
  then show ?thesis using fl_id [OF assms(1)] by (cases "fl x") simp_all
qed

lemma fl_between:
  assumes "is_double a" and "is_double b" and "a \<le> x" and "x \<le> b"
  shows "\<exists>y. fl x = Fin y \<and> a \<le> y \<and> y \<le> b"
  using fl_ge [OF assms(1,3)] fl_le [OF assms(2,4)] by auto

lemma fl_eqI:
  assumes "- 1022 \<le> e" and "2 powi e \<le> \<bar>x\<bar> \<or> e = - 1022" and "\<bar>x\<bar> < 2 powi (e + 1)"
    and "x \<noteq> 0"
    and "\<bar>real_of_int n - x / 2 powi (e - 52)\<bar> < 1 / 2
         \<or> (\<bar>real_of_int n - x / 2 powi (e - 52)\<bar> = 1 / 2 \<and> even n)"
    and "\<bar>real_of_int n * 2 powi (e - 52)\<bar> < 2 ^ 1024"
  shows "fl x = Fin (real_of_int n * 2 powi (e - 52))"
proof -
  have b: "binade x = e"
  proof (cases "2 powi e \<le> \<bar>x\<bar>")
    case True
    with assms(1) show ?thesis using assms(3) by (rule binade_eq)
  next
    case False
    with assms(2) have e: "e = - 1022" by simp
    with False have "\<bar>x\<bar> < 2 powi (- 1022)" by simp
    with assms(4) show ?thesis unfolding e by (rule binade_low)
  qed
  then have u: "ulp x = 2 powi (e - 52)" by (simp add: ulp_def)
  have "round_even (x / ulp x) = n" unfolding u using assms(5) by (rule round_even_unique)
  then have "nearest x = real_of_int n * 2 powi (e - 52)" by (simp add: nearest_def u)
  with assms(6) show ?thesis by (simp add: fl_def)
qed

lemma nearest_eqI:
  assumes "- 1022 \<le> e" and "2 powi e \<le> \<bar>x\<bar> \<or> e = - 1022" and "\<bar>x\<bar> < 2 powi (e + 1)"
    and "x \<noteq> 0"
    and "\<bar>real_of_int n - x / 2 powi (e - 52)\<bar> < 1 / 2
         \<or> (\<bar>real_of_int n - x / 2 powi (e - 52)\<bar> = 1 / 2 \<and> even n)"
  shows "nearest x = real_of_int n * 2 powi (e - 52)"
proof -
  have b: "binade x = e"
  proof (cases "2 powi e \<le> \<bar>x\<bar>")
    case True
    with assms(1) show ?thesis using assms(3) by (rule binade_eq)
  next
    case False
    with assms(2) have e: "e = - 1022" by simp
    with False have "\<bar>x\<bar> < 2 powi (- 1022)" by simp
    with assms(4) show ?thesis unfolding e by (rule binade_low)
  qed
  then have u: "ulp x = 2 powi (e - 52)" by (simp add: ulp_def)
  have "round_even (x / ulp x) = n" unfolding u using assms(5) by (rule round_even_unique)
  then show ?thesis by (simp add: nearest_def u)
qed

lemma is_doubleI:
  "x = real_of_int m * 2 powi e \<Longrightarrow> \<bar>m\<bar> < 2 ^ 53 \<Longrightarrow> - 1074 \<le> e \<Longrightarrow> e \<le> 971 \<Longrightarrow> is_double x"
  unfolding is_double_def by blast

lemma rnd_Fin: "rnd (Fin x) = fl x"
  by simp

lemma d_ops_Fin:
  "dadd (Fin a) (Fin b) = fl (a + b)"
  "dsub (Fin a) (Fin b) = fl (a - b)"
  "dmul (Fin a) (Fin b) = fl (a * b)"
  "b \<noteq> 0 \<Longrightarrow> ddiv (Fin a) (Fin b) = fl (a / b)"
  by (simp_all add: dadd_def dsub_def dmul_def ddiv_def jsub_def)

lemma lit_8_10: "lit (8 / 10) = 3602879701896397 / 2 ^ 52" "lit (4 / 5) = 3602879701896397 / 2 ^ 52"
proof -
  have "nearest (4 / 5) = real_of_int 7205759403792794 * 2 powi (- 1 - 52)"
    by (rule nearest_eqI) simp_all
  then show "lit (4 / 5) = 3602879701896397 / 2 ^ 52" by (simp add: lit_def)
  then show "lit (8 / 10) = 3602879701896397 / 2 ^ 52" by simp
qed

lemma lit_13_10: "lit (13 / 10) = 5854679515581645 / 2 ^ 52" "lit (13 / 10) = 5854679515581645 / 2 ^ 52"
proof -
  have "nearest (13 / 10) = real_of_int 5854679515581645 * 2 powi (0 - 52)"
    by (rule nearest_eqI) simp_all
  then show "lit (13 / 10) = 5854679515581645 / 2 ^ 52" by (simp add: lit_def)
  then show "lit (13 / 10) = 5854679515581645 / 2 ^ 52" .
qed

lemma lit_35_100: "lit (35 / 100) = 3152519739159347 / 2 ^ 53" "lit (7 / 20) = 3152519739159347 / 2 ^ 53"
proof -
  have "nearest (7 / 20) = real_of_int 6305039478318694 * 2 powi (- 2 - 52)"
    by (rule nearest_eqI) simp_all
  then show "lit (7 / 20) = 3152519739159347 / 2 ^ 53" by (simp add: lit_def)
  then show "lit (35 / 100) = 3152519739159347 / 2 ^ 53" by simp
qed

lemma lit_55_100: "lit (55 / 100) = 2476979795053773 / 2 ^ 52" "lit (11 / 20) = 2476979795053773 / 2 ^ 52"
proof -
  have "nearest (11 / 20) = real_of_int 4953959590107546 * 2 powi (- 1 - 52)"
    by (rule nearest_eqI) simp_all
  then show "lit (11 / 20) = 2476979795053773 / 2 ^ 52" by (simp add: lit_def)
  then show "lit (55 / 100) = 2476979795053773 / 2 ^ 52" by simp
qed

lemma lit_6_10: "lit (6 / 10) = 5404319552844595 / 2 ^ 53" "lit (3 / 5) = 5404319552844595 / 2 ^ 53"
proof -
  have "nearest (3 / 5) = real_of_int 5404319552844595 * 2 powi (- 1 - 52)"
    by (rule nearest_eqI) simp_all
  then show "lit (3 / 5) = 5404319552844595 / 2 ^ 53" by (simp add: lit_def)
  then show "lit (6 / 10) = 5404319552844595 / 2 ^ 53" by simp
qed

lemma lit_2_10: "lit (2 / 10) = 3602879701896397 / 2 ^ 54" "lit (1 / 5) = 3602879701896397 / 2 ^ 54"
proof -
  have "nearest (1 / 5) = real_of_int 7205759403792794 * 2 powi (- 3 - 52)"
    by (rule nearest_eqI) simp_all
  then show "lit (1 / 5) = 3602879701896397 / 2 ^ 54" by (simp add: lit_def)
  then show "lit (2 / 10) = 3602879701896397 / 2 ^ 54" by simp
qed

lemma lit_7_10: "lit (7 / 10) = 3152519739159347 / 2 ^ 52" "lit (7 / 10) = 3152519739159347 / 2 ^ 52"
proof -
  have "nearest (7 / 10) = real_of_int 6305039478318694 * 2 powi (- 1 - 52)"
    by (rule nearest_eqI) simp_all
  then show "lit (7 / 10) = 3152519739159347 / 2 ^ 52" by (simp add: lit_def)
  then show "lit (7 / 10) = 3152519739159347 / 2 ^ 52" .
qed

lemma is_double_half: "is_double (1 / 2)"
  using is_double_pow2 [of "- 1"] by simp

section \<open>Properties of the analytic estimator\<close>











text \<open>
  C3: for every input with \<open>s \<le> 0\<close> or \<open>mu \<le> 0\<close>, and for every input whose utilisation
  \<open>lam / (s * mu)\<close> (the JavaScript quotient, infinite when the divisor is zero) is at least 1,
  \<open>erlangC\<close> returns 1 and \<open>expectedWaitMinutes\<close> returns \<open>+Infinity\<close>, which is neither
  negative nor NaN.
\<close>

theorem erlang_degenerate:
  "(s \<le> 0 \<or> mu \<le> 0 \<longrightarrow>
      erlangC lam mu s = Fin 1 \<and> expectedWaitMinutes lam mu s = PInf)
   \<and> (jle (Fin 1) (jdiv (Fin lam) (Fin (real_of_int s * mu))) \<longrightarrow>
      erlangC lam mu s = Fin 1 \<and> expectedWaitMinutes lam mu s = PInf)"
proof (intro conjI impI)
  assume "s \<le> 0 \<or> mu \<le> 0"
  then show "erlangC lam mu s = Fin 1" "expectedWaitMinutes lam mu s = PInf"
    by (auto simp: erlangC_def expectedWaitMinutes_def)
next
  assume h: "jle (Fin 1) (jdiv (Fin lam) (Fin (real_of_int s * mu)))"
  show "erlangC lam mu s = Fin 1"
  proof (cases "s \<le> 0 \<or> mu \<le> 0")
    case True
    then show ?thesis by (auto simp: erlangC_def)
  next
    case False
    then have "real_of_int s * mu \<noteq> 0" by simp
    with h have "1 \<le> lam / (real_of_int s * mu)" by simp
    with False show ?thesis by (simp add: erlangC_def Let_def)
  qed
  show "expectedWaitMinutes lam mu s = PInf"
  proof (cases "s \<le> 0 \<or> mu \<le> 0")
    case True
    then show ?thesis by (auto simp: expectedWaitMinutes_def)
  next
    case False
    then have "real_of_int s * mu \<noteq> 0" by simp
    with h have "1 \<le> lam / (real_of_int s * mu)" by simp
    with False show ?thesis by (simp add: expectedWaitMinutes_def Let_def)
  qed
qed

theorem erlang_degenerate_witness:
  "((0::int) \<le> 0 \<or> (1::real) \<le> 0)
   \<and> erlangC (1 / 2) 1 0 = Fin 1 \<and> expectedWaitMinutes (1 / 2) 1 0 = PInf
   \<and> jle (Fin 1) (jdiv (Fin 10) (Fin (real_of_int 1 * 1)))
   \<and> erlangC 10 1 1 = Fin 1 \<and> expectedWaitMinutes 10 1 1 = PInf"
  using erlang_degenerate [of 0 1 "1 / 2"] erlang_degenerate [of 1 1 10]
  by simp





section \<open>Properties of the lane advisor\<close>

lemma predictedQueueTime_eq:
  "predictedQueueTime q rate servers =
     (if rate \<le> 0 \<or> servers \<le> 0 then PInf else Fin (q / (rate * real_of_int servers)))"
  by (simp add: predictedQueueTime_def)

lemma predictedQueueTime_range:
  "0 \<le> q \<Longrightarrow> nonneg_or_inf (predictedQueueTime q rate servers)"
  by (simp add: predictedQueueTime_eq nonneg_or_inf_def)

lemma nonneg_or_inf_jadd:
  "nonneg_or_inf a \<Longrightarrow> nonneg_or_inf b \<Longrightarrow> nonneg_or_inf (jadd a b)"
  by (cases a; cases b) (simp_all add: nonneg_or_inf_def)

lemma nonneg_or_inf_jmul:
  "nonneg_or_inf a \<Longrightarrow> 0 < m \<Longrightarrow> nonneg_or_inf (jmul a (Fin m))"
  by (cases a) (simp_all add: nonneg_or_inf_def)

lemma mobileFactor_pos: "0 < mobileFactor_of isMob"
  by (simp add: mobileFactor_of_def)

lemma lane_total_range: "nonneg_or_inf (lane_total sys (mobileFactor_of isMob) L)"
  unfolding lane_total_def Let_def
  by (intro nonneg_or_inf_jadd nonneg_or_inf_jmul predictedQueueTime_range mobileFactor_pos)
     simp_all

lemma chooseBestLane_eq:
  "chooseBestLane sys isMob =
     (if jlt (lane_total sys (mobileFactor_of isMob) LaneB)
             (lane_total sys (mobileFactor_of isMob) LaneA)
      then (LaneB, lane_total sys (mobileFactor_of isMob) LaneB)
      else (LaneA, lane_total sys (mobileFactor_of isMob) LaneA))"
proof -
  have "nonneg_or_inf (lane_total sys (mobileFactor_of isMob) LaneA)" by (rule lane_total_range)
  then show ?thesis
    by (cases "lane_total sys (mobileFactor_of isMob) LaneA")
       (simp_all add: chooseBestLane_def Let_def nonneg_or_inf_def)
qed

lemma chooseBestLane_range: "nonneg_or_inf (snd (chooseBestLane sys isMob))"
  using lane_total_range [of sys isMob LaneA] lane_total_range [of sys isMob LaneB]
  by (simp add: chooseBestLane_eq)

lemma jmul_commute: "jmul a b = jmul b a"
  by (cases a; cases b) (simp_all add: mult.commute)

lemma lane_total_spec:
  "lane_total sys mf L =
     spec_lane_total (length (order (queues sys) L)) (length (pay (queues sys)))
       (length (pickup (queues sys))) (params sys) mf L"
  by (simp add: lane_total_def spec_lane_total_def spec_ratio_def predictedQueueTime_eq
        Let_def jmul_commute)

lemma lane_total_PInf_shared:
  assumes "payRate (params sys) \<le> 0 \<or> payServers (params sys) \<le> 0
           \<or> pickupRate (params sys) \<le> 0 \<or> pickupServers (params sys) \<le> 0"
  shows "lane_total sys (mobileFactor_of isMob) L = PInf"
proof -
  define o1 where "o1 = jmul (predictedQueueTime (real (length (order (queues sys) L)))
    (orderRate (params sys)) (orderServers (params sys) L)) (Fin (mobileFactor_of isMob))"
  define p1 where "p1 = predictedQueueTime (real (length (pay (queues sys))))
    (payRate (params sys)) (payServers (params sys))"
  define k1 where "k1 = predictedQueueTime (real (length (pickup (queues sys))))
    (pickupRate (params sys)) (pickupServers (params sys))"
  have o: "nonneg_or_inf o1" unfolding o1_def
    by (intro nonneg_or_inf_jmul predictedQueueTime_range mobileFactor_pos) simp
  have p: "nonneg_or_inf p1" unfolding p1_def by (intro predictedQueueTime_range) simp
  have k: "nonneg_or_inf k1" unfolding k1_def by (intro predictedQueueTime_range) simp
  have "p1 = PInf \<or> k1 = PInf"
    using assms by (auto simp: p1_def k1_def predictedQueueTime_eq)
  then have "jadd (jadd o1 p1) k1 = PInf"
    using o p k by (cases o1; cases p1; cases k1) (simp_all add: nonneg_or_inf_def)
  then show ?thesis by (simp add: lane_total_def Let_def o1_def p1_def k1_def)
qed

text \<open>
  C10: when both lanes' predicted totals are \<open>+Infinity\<close>, and so whenever the rate or the
  server count of the pay or the pickup stage is non-positive, \<open>chooseBestLane\<close> returns
  lane A with eta \<open>+Infinity\<close>. In every state the eta is not NaN and not negative, and it
  compares with any divert threshold: it is above the threshold or at most the threshold.
\<close>

theorem chooseBestLane_all_infinite:
  "(lane_total sys (mobileFactor_of isMob) LaneA = PInf
      \<and> lane_total sys (mobileFactor_of isMob) LaneB = PInf
      \<longrightarrow> chooseBestLane sys isMob = (LaneA, PInf))
   \<and> (payRate (params sys) \<le> 0 \<or> payServers (params sys) \<le> 0
      \<or> pickupRate (params sys) \<le> 0 \<or> pickupServers (params sys) \<le> 0
      \<longrightarrow> chooseBestLane sys isMob = (LaneA, PInf))
   \<and> snd (chooseBestLane sys isMob) \<noteq> NaN
   \<and> \<not> jlt (snd (chooseBestLane sys isMob)) (Fin 0)
   \<and> (jlt (Fin thr) (snd (chooseBestLane sys isMob))
      \<or> jle (snd (chooseBestLane sys isMob)) (Fin thr))"
proof (intro conjI impI)
  assume "lane_total sys (mobileFactor_of isMob) LaneA = PInf
      \<and> lane_total sys (mobileFactor_of isMob) LaneB = PInf"
  then show "chooseBestLane sys isMob = (LaneA, PInf)"
    by (simp add: chooseBestLane_eq)
next
  assume "payRate (params sys) \<le> 0 \<or> payServers (params sys) \<le> 0
      \<or> pickupRate (params sys) \<le> 0 \<or> pickupServers (params sys) \<le> 0"
  then have "lane_total sys (mobileFactor_of isMob) LaneA = PInf"
    and "lane_total sys (mobileFactor_of isMob) LaneB = PInf"
    by (rule lane_total_PInf_shared)+
  then show "chooseBestLane sys isMob = (LaneA, PInf)"
    by (simp add: chooseBestLane_eq)
next
  have r: "nonneg_or_inf (snd (chooseBestLane sys isMob))" by (rule chooseBestLane_range)
  show "snd (chooseBestLane sys isMob) \<noteq> NaN"
    using r by (auto simp: nonneg_or_inf_def)
  show "\<not> jlt (snd (chooseBestLane sys isMob)) (Fin 0)"
    using r by (cases "snd (chooseBestLane sys isMob)") (simp_all add: nonneg_or_inf_def)
  show "jlt (Fin thr) (snd (chooseBestLane sys isMob))
      \<or> jle (snd (chooseBestLane sys isMob)) (Fin thr)"
    using r by (cases "snd (chooseBestLane sys isMob)") (auto simp: nonneg_or_inf_def)
qed

theorem chooseBestLane_all_infinite_witness:
  "payRate (initial_params\<lparr>payRate := 0\<rparr>) \<le> 0
   \<and> lane_total \<lparr>queues = queues_210, params = initial_params\<lparr>payRate := 0\<rparr>\<rparr>
        (mobileFactor_of True) LaneA = PInf
   \<and> lane_total \<lparr>queues = queues_210, params = initial_params\<lparr>payRate := 0\<rparr>\<rparr>
        (mobileFactor_of True) LaneB = PInf
   \<and> chooseBestLane \<lparr>queues = queues_210, params = initial_params\<lparr>payRate := 0\<rparr>\<rparr> True
       = (LaneA, PInf)"
proof -
  have a: "lane_total \<lparr>queues = queues_210, params = initial_params\<lparr>payRate := 0\<rparr>\<rparr>
        (mobileFactor_of True) LaneA = PInf"
    by (simp add: lane_total_def predictedQueueTime_def queues_210_def initial_params_def
          mobileFactor_of_def Let_def)
  have b: "lane_total \<lparr>queues = queues_210, params = initial_params\<lparr>payRate := 0\<rparr>\<rparr>
        (mobileFactor_of True) LaneB = PInf"
    by (simp add: lane_total_def predictedQueueTime_def queues_210_def initial_params_def
          mobileFactor_of_def Let_def)
  show ?thesis
    using a b chooseBestLane_all_infinite
      [of "\<lparr>queues = queues_210, params = initial_params\<lparr>payRate := 0\<rparr>\<rparr>" True 7]
    by simp
qed

section \<open>Properties of the lane advisor in binary64\<close>

lemma chooseBestLane64_unfold:
  "chooseBestLane64 sys isMob =
     (let tA = lane_total64 sys (mobileFactor64 isMob) LaneA;
          tB = lane_total64 sys (mobileFactor64 isMob) LaneB;
          bA = (if jlt tA PInf then tA else PInf)
      in if jlt tB bA then (LaneB, tB) else (LaneA, bA))"
  by (simp add: chooseBestLane64_def Let_def)

lemma dmul_commute: "dmul a b = dmul b a"
  by (simp add: dmul_def jmul_commute)

lemma lane_total64_spec:
  "lane_total64 sys mf L =
     spec_lane_total64 (length (order (queues sys) L)) (length (pay (queues sys)))
       (length (pickup (queues sys))) (params sys) mf L"
  by (simp add: lane_total64_def spec_lane_total64_def spec_ratio64_def
        predictedQueueTime64_def Let_def dmul_commute)

lemma best_not_NaN:
  "tA \<noteq> NaN \<Longrightarrow>
   (let bA = (if jlt tA PInf then tA else PInf)
    in if jlt tB bA then (LaneB, tB) else (LaneA, bA))
   = (if jlt tB tA then (LaneB, tB) else (LaneA, tA))"
  by (cases tA; cases tB) (simp_all add: Let_def)

lemma fl_nonneg_or_inf: "0 \<le> x \<Longrightarrow> nonneg_or_inf (fl x)"
  using fl_nonneg [of x] by (auto simp: nonneg_or_inf_def)

lemma is_double_pos: "is_double x \<Longrightarrow> 0 < x \<Longrightarrow> 0 < nearest (x * real_of_int k) \<or> k \<le> 0"
proof -
  assume d: "is_double x" and x: "0 < x"
  show ?thesis
  proof (cases "k \<le> 0")
    case True
    then show ?thesis by simp
  next
    case False
    then have "1 \<le> real_of_int k" by simp
    then have "x * 1 \<le> x * real_of_int k" using x by (intro mult_left_mono) simp_all
    then have "nearest x \<le> nearest (x * real_of_int k)" by (intro nearest_mono) simp
    moreover have "nearest x = x"
      using d unfolding is_double_def by (auto intro: nearest_id)
    ultimately show ?thesis using x by simp
  qed
qed

lemma spec_ratio64_range:
  assumes "is_double rate"
  shows "nonneg_or_inf (spec_ratio64 n rate servers)"
proof (cases "rate \<le> 0 \<or> servers \<le> 0")
  case True
  then show ?thesis by (simp add: spec_ratio64_def nonneg_or_inf_def)
next
  case False
  then have r: "0 < rate" and s: "0 < servers" by simp_all
  from is_double_pos [OF assms r, of servers] s
  have p: "0 < nearest (rate * real_of_int servers)" by simp
  show ?thesis
  proof (cases "fl (rate * real_of_int servers)")
    case (Fin y)
    then have "y = nearest (rate * real_of_int servers)"
      by (simp add: fl_cases split: if_splits)
    with p have y: "0 < y" by simp
    then have "0 \<le> real n / y" by simp
    then have "nonneg_or_inf (fl (real n / y))" by (rule fl_nonneg_or_inf)
    then show ?thesis using False Fin y
      by (simp add: spec_ratio64_def d_ops_Fin(3) ddiv_def)
  next
    case PInf
    then show ?thesis using False
      by (simp add: spec_ratio64_def d_ops_Fin(3) ddiv_def nonneg_or_inf_def)
  next
    case NInf
    then have "nearest (rate * real_of_int servers) \<le> - (2 ^ 1024)"
      by (simp add: fl_cases split: if_splits)
    with p show ?thesis by (smt (verit) zero_less_power)
  next
    case NaN
    then show ?thesis by simp
  qed
qed

lemma nonneg_or_inf_dadd:
  "nonneg_or_inf a \<Longrightarrow> nonneg_or_inf b \<Longrightarrow> nonneg_or_inf (dadd a b)"
  by (cases a; cases b) (simp_all add: nonneg_or_inf_def dadd_def fl_nonneg_or_inf [unfolded nonneg_or_inf_def])

lemma nonneg_or_inf_dmul:
  "0 < m \<Longrightarrow> nonneg_or_inf a \<Longrightarrow> nonneg_or_inf (dmul (Fin m) a)"
  by (cases a) (simp_all add: nonneg_or_inf_def dmul_def fl_nonneg_or_inf [unfolded nonneg_or_inf_def])

lemma mobileFactor64_range: "0 < mobileFactor64 isMob" "mobileFactor64 isMob < 1 \<longleftrightarrow> isMob"
  by (simp_all add: mobileFactor64_def lit_55_100)

lemma spec_lane_total64_range:
  assumes "is_double (orderRate p)" and "is_double (payRate p)" and "is_double (pickupRate p)"
  shows "nonneg_or_inf (spec_lane_total64 nO nP nK p (mobileFactor64 isMob) L)"
  unfolding spec_lane_total64_def
  by (intro nonneg_or_inf_dadd nonneg_or_inf_dmul spec_ratio64_range assms mobileFactor64_range)

lemma fl_tie_a0: "fl (3602879701896397 / 4503599627370496) = Fin (3602879701896397 / 4503599627370496)"
proof -
  have "fl (3602879701896397 / 4503599627370496) = Fin (real_of_int 7205759403792794 * 2 powi (- 1 - 52))"
    by (rule fl_eqI) simp_all
  then show ?thesis by simp
qed

lemma fl_tie_p0: "fl (5854679515581645 / 4503599627370496) = Fin (5854679515581645 / 4503599627370496)"
proof -
  have "fl (5854679515581645 / 4503599627370496) = Fin (real_of_int 5854679515581645 * 2 powi (0 - 52))"
    by (rule fl_eqI) simp_all
  then show ?thesis by simp
qed

lemma fl_tie_a1: "fl (4503599627370496 / 3602879701896397) = Fin (5 / 4)"
proof -
  have "fl (4503599627370496 / 3602879701896397) = Fin (real_of_int 5629499534213120 * 2 powi (0 - 52))"
    by (rule fl_eqI) simp_all
  then show ?thesis by simp
qed

lemma fl_tie_a2: "fl (5 / 4) = Fin (5 / 4)"
proof -
  have "fl (5 / 4) = Fin (real_of_int 5629499534213120 * 2 powi (0 - 52))"
    by (rule fl_eqI) simp_all
  then show ?thesis by simp
qed

lemma fl_tie_b1: "fl (10808639105689191 / 4503599627370496) = Fin (1351079888211149 / 562949953421312)"
proof -
  have "fl (10808639105689191 / 4503599627370496) = Fin (real_of_int 5404319552844596 * 2 powi (1 - 52))"
    by (rule fl_eqI) simp_all
  then show ?thesis by simp
qed

lemma fl_tie_b2: "fl (1688849860263936 / 1351079888211149) = Fin (5629499534213119 / 4503599627370496)"
proof -
  have "fl (1688849860263936 / 1351079888211149) = Fin (real_of_int 5629499534213119 * 2 powi (0 - 52))"
    by (rule fl_eqI) simp_all
  then show ?thesis by simp
qed

lemma fl_tie_b3: "fl (5629499534213119 / 4503599627370496) = Fin (5629499534213119 / 4503599627370496)"
proof -
  have "fl (5629499534213119 / 4503599627370496) = Fin (real_of_int 5629499534213119 * 2 powi (0 - 52))"
    by (rule fl_eqI) simp_all
  then show ?thesis by simp
qed

lemma tie_total_A:
  "spec_lane_total64 1 0 0 (params sys_tie) 1 LaneA = Fin (5 / 4)"
  "spec_lane_total64 (Suc 0) 0 0 (params sys_tie) 1 LaneA = Fin (5 / 4)"
  by (simp_all add: spec_lane_total64_def spec_ratio64_def sys_tie_def initial_params64_def
        lit_8_10 lit_13_10 d_ops_Fin fl_tie_a0 fl_tie_p0 fl_tie_a1 fl_tie_a2)

lemma tie_total_B:
  "spec_lane_total64 3 0 0 (params sys_tie) 1 LaneB = Fin (5629499534213119 / 4503599627370496)"
  by (simp add: spec_lane_total64_def spec_ratio64_def sys_tie_def initial_params64_def
        lit_8_10 lit_13_10 d_ops_Fin fl_tie_a0 fl_tie_p0 fl_tie_b1 fl_tie_b2 fl_tie_b3)

text \<open>
  C5, as the claim states it, fails. With one car and one server in lane A, three cars and
  three servers in lane B and an order rate of 0.8, the totals of the claim are equal:
  \<open>1 / (0.8 * 1)\<close> and \<open>3 / (0.8 * 3)\<close>. The engine computes \<open>0.8 * 3\<close> as
  2.4000000000000004 and the total of lane B as 1.2499999999999998, below the 1.25 of lane A,
  and returns lane B.
\<close>

theorem chooseBestLane_tie_counterexample:
  "length (order (queues sys_tie) LaneA) = 1 \<and> length (order (queues sys_tie) LaneB) = 3
   \<and> length (pay (queues sys_tie)) = 0 \<and> length (pickup (queues sys_tie)) = 0
   \<and> orderServers (params sys_tie) LaneA = 1 \<and> orderServers (params sys_tie) LaneB = 3
   \<and> orderRate (params sys_tie) = lit (8 / 10)
   \<and> spec_lane_total 1 0 0 (params sys_tie) 1 LaneA
       = spec_lane_total 3 0 0 (params sys_tie) 1 LaneB
   \<and> chooseBestLane64 sys_tie False = (LaneB, Fin (5629499534213119 / 2 ^ 52))"
proof -
  have l: "length (order (queues sys_tie) LaneA) = 1" "length (order (queues sys_tie) LaneB) = 3"
    "length (pay (queues sys_tie)) = 0" "length (pickup (queues sys_tie)) = 0"
    "orderServers (params sys_tie) LaneA = 1" "orderServers (params sys_tie) LaneB = 3"
    "orderRate (params sys_tie) = lit (8 / 10)"
    by (simp_all add: sys_tie_def initial_params64_def)
  have e: "spec_lane_total 1 0 0 (params sys_tie) 1 LaneA
       = spec_lane_total 3 0 0 (params sys_tie) 1 LaneB"
    by (simp add: spec_lane_total_def spec_ratio_def sys_tie_def initial_params64_def
          lit_8_10 lit_13_10)
  have c: "chooseBestLane64 sys_tie False = (LaneB, Fin (5629499534213119 / 2 ^ 52))"
    unfolding chooseBestLane64_unfold lane_total64_spec l
    by (simp add: mobileFactor64_def tie_total_A tie_total_B Let_def)
  from l e c show ?thesis by simp
qed

text \<open>
  C5, amended: the totals are the binary64 values the engine computes. \<open>chooseBestLane\<close>
  computes for lane A and then lane B the total
  \<open>mobileFactor * orderRatio(L) + payRatio + pickupRatio\<close> in binary64, in which a ratio is
  \<open>+Infinity\<close> when its rate or server count is non-positive; lane A is kept with its total
  when that is below \<open>+Infinity\<close>, and lane B replaces it when its total is strictly lower.
  When the three rates are binary64 values, no total is NaN or negative, and the result is
  lane B with its total when that total is strictly lower, and lane A with its total
  otherwise, so on a tie of the computed totals. The mobile factor is below 1 exactly for a
  mobile arrival, and two systems with the same queue lengths and parameters get the same
  lane and eta.
\<close>

theorem chooseBestLane64_spec:
  "chooseBestLane64 sys isMob =
     (let tA = spec_lane_total64 (length (order (queues sys) LaneA)) (length (pay (queues sys)))
                 (length (pickup (queues sys))) (params sys) (mobileFactor64 isMob) LaneA;
          tB = spec_lane_total64 (length (order (queues sys) LaneB)) (length (pay (queues sys)))
                 (length (pickup (queues sys))) (params sys) (mobileFactor64 isMob) LaneB;
          bA = (if jlt tA PInf then tA else PInf)
      in if jlt tB bA then (LaneB, tB) else (LaneA, bA))
   \<and> (is_double (orderRate (params sys)) \<and> is_double (payRate (params sys))
        \<and> is_double (pickupRate (params sys)) \<longrightarrow>
        (let tA = spec_lane_total64 (length (order (queues sys) LaneA))
                    (length (pay (queues sys))) (length (pickup (queues sys))) (params sys)
                    (mobileFactor64 isMob) LaneA;
             tB = spec_lane_total64 (length (order (queues sys) LaneB))
                    (length (pay (queues sys))) (length (pickup (queues sys))) (params sys)
                    (mobileFactor64 isMob) LaneB
         in nonneg_or_inf tA \<and> nonneg_or_inf tB
            \<and> chooseBestLane64 sys isMob = (if jlt tB tA then (LaneB, tB) else (LaneA, tA))))
   \<and> (mobileFactor64 isMob < 1 \<longleftrightarrow> isMob)
   \<and> ((\<forall>L. length (order (queues sys) L) = length (order (queues sys') L))
        \<and> length (pay (queues sys)) = length (pay (queues sys'))
        \<and> length (pickup (queues sys)) = length (pickup (queues sys'))
        \<and> params sys = params sys'
      \<longrightarrow> chooseBestLane64 sys isMob = chooseBestLane64 sys' isMob)"
proof -
  define tA where "tA = spec_lane_total64 (length (order (queues sys) LaneA))
    (length (pay (queues sys))) (length (pickup (queues sys))) (params sys)
    (mobileFactor64 isMob) LaneA"
  define tB where "tB = spec_lane_total64 (length (order (queues sys) LaneB))
    (length (pay (queues sys))) (length (pickup (queues sys))) (params sys)
    (mobileFactor64 isMob) LaneB"
  have u: "chooseBestLane64 sys isMob =
     (let bA = (if jlt tA PInf then tA else PInf)
      in if jlt tB bA then (LaneB, tB) else (LaneA, bA))"
    by (simp add: chooseBestLane64_unfold lane_total64_spec tA_def tB_def Let_def)
  have r: "nonneg_or_inf tA \<and> nonneg_or_inf tB
            \<and> chooseBestLane64 sys isMob = (if jlt tB tA then (LaneB, tB) else (LaneA, tA))"
    if d: "is_double (orderRate (params sys)) \<and> is_double (payRate (params sys))
        \<and> is_double (pickupRate (params sys))"
  proof -
    have a: "nonneg_or_inf tA" and b: "nonneg_or_inf tB"
      unfolding tA_def tB_def using d by (simp_all add: spec_lane_total64_range)
    from a have "tA \<noteq> NaN" by (auto simp: nonneg_or_inf_def)
    from best_not_NaN [OF this] a b show ?thesis by (simp add: u)
  qed
  have det: "chooseBestLane64 sys isMob = chooseBestLane64 sys' isMob"
    if "(\<forall>L. length (order (queues sys) L) = length (order (queues sys') L))
        \<and> length (pay (queues sys)) = length (pay (queues sys'))
        \<and> length (pickup (queues sys)) = length (pickup (queues sys'))
        \<and> params sys = params sys'"
    using that by (simp add: chooseBestLane64_unfold lane_total64_spec)
  show ?thesis
    using u r det mobileFactor64_range(2) [of isMob]
    unfolding tA_def tB_def Let_def by blast
qed

theorem chooseBestLane64_spec_witness:
  "is_double (orderRate (params sys_tie)) \<and> is_double (payRate (params sys_tie))
   \<and> is_double (pickupRate (params sys_tie))
   \<and> (\<forall>L. length (order (queues sys_tie) L) = length (order (queues sys_tie') L))
   \<and> length (pay (queues sys_tie)) = length (pay (queues sys_tie'))
   \<and> length (pickup (queues sys_tie)) = length (pickup (queues sys_tie'))
   \<and> params sys_tie = params sys_tie' \<and> queues sys_tie \<noteq> queues sys_tie'
   \<and> spec_lane_total64 (length (order (queues sys_tie) LaneA)) (length (pay (queues sys_tie)))
        (length (pickup (queues sys_tie))) (params sys_tie) (mobileFactor64 False) LaneA
       = Fin (5 / 4)
   \<and> spec_lane_total64 (length (order (queues sys_tie) LaneB)) (length (pay (queues sys_tie)))
        (length (pickup (queues sys_tie))) (params sys_tie) (mobileFactor64 False) LaneB
       = Fin (5629499534213119 / 2 ^ 52)
   \<and> chooseBestLane64 sys_tie False = (LaneB, Fin (5629499534213119 / 2 ^ 52))
   \<and> chooseBestLane64 sys_tie' False = (LaneB, Fin (5629499534213119 / 2 ^ 52))"
proof -
  have d: "is_double (orderRate (params sys_tie))" "is_double (payRate (params sys_tie))"
    "is_double (pickupRate (params sys_tie))"
  proof -
    show "is_double (orderRate (params sys_tie))"
      unfolding sys_tie_def initial_params64_def
      by (rule is_doubleI [of _ 3602879701896397 "- 52"]) (simp_all add: lit_8_10)
    show "is_double (payRate (params sys_tie))"
      unfolding sys_tie_def initial_params64_def
      by (rule is_doubleI [of _ 5854679515581645 "- 52"]) (simp_all add: lit_13_10)
    show "is_double (pickupRate (params sys_tie))"
      unfolding sys_tie_def initial_params64_def
      by (rule is_doubleI [of _ 1 0]) simp_all
  qed
  have len: "\<forall>L. length (order (queues sys_tie) L) = length (order (queues sys_tie') L)"
    by (simp add: sys_tie_def sys_tie'_def split: lane.split)
  have l: "length (order (queues sys_tie) LaneA) = 1" "length (order (queues sys_tie) LaneB) = 3"
    "length (pay (queues sys_tie)) = 0" "length (pickup (queues sys_tie)) = 0"
    by (simp_all add: sys_tie_def)
  have eq: "length (pay (queues sys_tie)) = length (pay (queues sys_tie'))"
    "length (pickup (queues sys_tie)) = length (pickup (queues sys_tie'))"
    "params sys_tie = params sys_tie'"
    by (simp_all add: sys_tie_def sys_tie'_def)
  have ne: "queues sys_tie \<noteq> queues sys_tie'"
  proof
    assume "queues sys_tie = queues sys_tie'"
    then have "order (queues sys_tie) LaneA = order (queues sys_tie') LaneA" by simp
    then show False by (simp add: sys_tie_def sys_tie'_def car0_def car1_def)
  qed
  have a: "spec_lane_total64 (length (order (queues sys_tie) LaneA)) (length (pay (queues sys_tie)))
        (length (pickup (queues sys_tie))) (params sys_tie) (mobileFactor64 False) LaneA
       = Fin (5 / 4)"
    unfolding l by (simp add: mobileFactor64_def tie_total_A)
  have b: "spec_lane_total64 (length (order (queues sys_tie) LaneB)) (length (pay (queues sys_tie)))
        (length (pickup (queues sys_tie))) (params sys_tie) (mobileFactor64 False) LaneB
       = Fin (5629499534213119 / 2 ^ 52)"
    unfolding l by (simp add: mobileFactor64_def tie_total_B)
  note T = chooseBestLane64_spec [of sys_tie False sys_tie']
  from T d have "chooseBestLane64 sys_tie False
      = (let tA = spec_lane_total64 (length (order (queues sys_tie) LaneA))
                    (length (pay (queues sys_tie))) (length (pickup (queues sys_tie)))
                    (params sys_tie) (mobileFactor64 False) LaneA;
             tB = spec_lane_total64 (length (order (queues sys_tie) LaneB))
                    (length (pay (queues sys_tie))) (length (pickup (queues sys_tie)))
                    (params sys_tie) (mobileFactor64 False) LaneB
         in if jlt tB tA then (LaneB, tB) else (LaneA, tA))"
    unfolding Let_def by blast
  then have v: "chooseBestLane64 sys_tie False = (LaneB, Fin (5629499534213119 / 2 ^ 52))"
    unfolding a b by (simp add: Let_def)
  from T len eq have "chooseBestLane64 sys_tie False = chooseBestLane64 sys_tie' False"
    by blast
  with v have v': "chooseBestLane64 sys_tie' False = (LaneB, Fin (5629499534213119 / 2 ^ 52))"
    by simp
  from d len eq ne a b v v' show ?thesis by blast
qed

section \<open>Properties of the spot allocator\<close>

lemma spot_loop_inv:
  "spot_inv e wt pre best bestScore \<Longrightarrow>
   \<exists>bs. spot_inv e wt (pre @ ss) (spot_loop e wt ss (length pre) best bestScore) bs"
proof (induction ss arbitrary: pre best bestScore)
  case Nil
  then show ?case by auto
next
  case (Cons s ss)
  have step: "spot_inv e wt (pre @ [s]) b' bs' \<Longrightarrow>
     \<exists>bs. spot_inv e wt (pre @ s # ss) (spot_loop e wt ss (Suc (length pre)) b' bs') bs" for b' bs'
    using Cons.IH [of "pre @ [s]" b' bs'] by simp
  show ?case
  proof (cases "occupied s \<or> reserved s")
    case True
    have "spot_inv e wt (pre @ [s]) best bestScore"
      using Cons.prems True
      by (auto simp: spot_inv_def eligible_def nth_append split: option.splits)
    from step [OF this] True show ?thesis by simp
  next
    case False
    then have el: "eligible s" by (simp add: eligible_def)
    show ?thesis
    proof (cases "jlt (Fin (spot_score e wt s)) bestScore")
      case True
      have "spot_inv e wt (pre @ [s]) (Some (length pre)) (Fin (spot_score e wt s))"
        using Cons.prems True el
        by (auto simp: spot_inv_def nth_append list_all_iff split: option.splits)
      from step [OF this] True False show ?thesis by (simp add: Let_def)
    next
      case nlt: False
      have "spot_inv e wt (pre @ [s]) best bestScore"
        using Cons.prems nlt el
        by (auto simp: spot_inv_def nth_append list_all_iff split: option.splits)
      from step [OF this] nlt False show ?thesis by (simp add: Let_def)
    qed
  qed
qed

lemma chooseParkingSpot_inv:
  "\<exists>bs. spot_inv (opts_entrance os) (opts_w os) sps (chooseParkingSpot sps os) bs"
  using spot_loop_inv [of "opts_entrance os" "opts_w os" "[]" None PInf sps]
  by (simp add: chooseParkingSpot_def spot_inv_def)

lemma chooseParkingSpot_None:
  "chooseParkingSpot sps os = None \<longleftrightarrow> (\<forall>s\<in>set sps. \<not> eligible s)"
  using chooseParkingSpot_inv [of os sps]
  by (auto simp: spot_inv_def list_all_iff split: option.splits)

lemma chooseParkingSpot_Some:
  "chooseParkingSpot sps os = Some i \<Longrightarrow>
     i < length sps \<and> eligible (sps ! i)
     \<and> (\<forall>s\<in>set sps. eligible s \<longrightarrow>
          spot_score (opts_entrance os) (opts_w os) (sps ! i) \<le> spot_score (opts_entrance os) (opts_w os) s)"
  using chooseParkingSpot_inv [of os sps]
  by (auto simp: spot_inv_def list_all_iff split: option.splits)

section \<open>Properties of the spot allocator in binary64\<close>

lemma jlt_trans: "jlt a b \<Longrightarrow> jlt b c \<Longrightarrow> jlt a c"
  by (cases a; cases b; cases c) auto

lemma jlt_PInf_left [simp]: "\<not> jlt PInf a"
  by (cases a) auto

lemma jlt_NaN [simp]: "\<not> jlt NaN a" "\<not> jlt a NaN"
  by (cases a; simp)+

lemma spot_loop64_inv:
  "spot_inv64 e wt pre best bestScore \<Longrightarrow>
   \<exists>bs. spot_inv64 e wt (pre @ ss) (spot_loop64 e wt ss (length pre) best bestScore) bs"
proof (induction ss arbitrary: pre best bestScore)
  case Nil
  then show ?case by auto
next
  case (Cons s ss)
  have step: "spot_inv64 e wt (pre @ [s]) b' bs' \<Longrightarrow>
     \<exists>bs. spot_inv64 e wt (pre @ s # ss) (spot_loop64 e wt ss (Suc (length pre)) b' bs') bs"
    for b' bs'
    using Cons.IH [of "pre @ [s]" b' bs'] by simp
  show ?case
  proof (cases "occupied s \<or> reserved s")
    case True
    have "spot_inv64 e wt (pre @ [s]) best bestScore"
      using Cons.prems True
      by (auto simp: spot_inv64_def eligible_def nth_append split: option.splits)
    from step [OF this] True show ?thesis by simp
  next
    case False
    then have el: "eligible s" by (simp add: eligible_def)
    show ?thesis
    proof (cases "jlt (spot_score64 e wt s) bestScore")
      case True
      have fin: "jlt (spot_score64 e wt s) PInf"
        using True by (cases "spot_score64 e wt s"; cases bestScore) simp_all
      have old: "\<not> jlt (spot_score64 e wt x) (spot_score64 e wt s)"
        if "x \<in> set pre" "eligible x" for x
      proof
        assume l: "jlt (spot_score64 e wt x) (spot_score64 e wt s)"
        then have "jlt (spot_score64 e wt x) bestScore" using True by (rule jlt_trans)
        moreover have "jlt (spot_score64 e wt x) PInf"
          using l by (cases "spot_score64 e wt x"; cases "spot_score64 e wt s") simp_all
        ultimately show False
          using Cons.prems that
          by (auto simp: spot_inv64_def list_all_iff split: option.splits)
      qed
      have self: "\<not> jlt (spot_score64 e wt s) (spot_score64 e wt s)"
        by (cases "spot_score64 e wt s") simp_all
      have "spot_inv64 e wt (pre @ [s]) (Some (length pre)) (spot_score64 e wt s)"
        using el fin old self by (auto simp: spot_inv64_def list_all_iff)
      from step [OF this] True False show ?thesis by (simp add: Let_def)
    next
      case nlt: False
      have "spot_inv64 e wt (pre @ [s]) best bestScore"
        using Cons.prems nlt el
        by (auto simp: spot_inv64_def nth_append list_all_iff split: option.splits)
      from step [OF this] nlt False show ?thesis by (simp add: Let_def)
    qed
  qed
qed

lemma spot_loop64_start:
  "\<exists>bs. spot_inv64 e wt sps (spot_loop64 e wt sps 0 None PInf) bs"
  using spot_loop64_inv [of e wt "[]" None PInf sps] by (simp add: spot_inv64_def)

lemma spot_loop64_None:
  "spot_loop64 e wt sps 0 None PInf = None
   \<longleftrightarrow> (\<forall>s\<in>set sps. eligible s \<longrightarrow> \<not> jlt (spot_score64 e wt s) PInf)"
proof
  assume "spot_loop64 e wt sps 0 None PInf = None"
  then show "\<forall>s\<in>set sps. eligible s \<longrightarrow> \<not> jlt (spot_score64 e wt s) PInf"
    using spot_loop64_start [of e wt sps] by (auto simp: spot_inv64_def list_all_iff)
next
  assume a: "\<forall>s\<in>set sps. eligible s \<longrightarrow> \<not> jlt (spot_score64 e wt s) PInf"
  show "spot_loop64 e wt sps 0 None PInf = None"
  proof (cases "spot_loop64 e wt sps 0 None PInf")
    case None
    then show ?thesis .
  next
    case (Some j)
    with spot_loop64_start [of e wt sps]
    have "j < length sps" "eligible (sps ! j)" "jlt (spot_score64 e wt (sps ! j)) PInf"
      by (auto simp: spot_inv64_def)
    with a show ?thesis by (metis nth_mem)
  qed
qed

lemma spot_loop64_Some:
  "spot_loop64 e wt sps 0 None PInf = Some i \<Longrightarrow>
     i < length sps \<and> eligible (sps ! i) \<and> jlt (spot_score64 e wt (sps ! i)) PInf
     \<and> (\<forall>s\<in>set sps. eligible s \<longrightarrow>
          \<not> jlt (spot_score64 e wt s) (spot_score64 e wt (sps ! i)))"
  using spot_loop64_start [of e wt sps]
  by (auto simp: spot_inv64_def list_all_iff)

lemma chooseParkingSpot64_unfold:
  "chooseParkingSpot64 sps os =
     spot_loop64
       (case os of None \<Rightarrow> (6, 70)
        | Some ob \<Rightarrow> (case entrance ob of None \<Rightarrow> (6, 70) | Some e \<Rightarrow> e))
       (case os of
          None \<Rightarrow> \<lparr>w_dist = 1, w_exit = lit (6 / 10), w_cong = lit (8 / 10),
                   w_angle = lit (2 / 10)\<rparr>
        | Some ob \<Rightarrow>
            (case w ob of
               None \<Rightarrow> \<lparr>w_dist = 1, w_exit = lit (6 / 10), w_cong = lit (8 / 10),
                        w_angle = lit (2 / 10)\<rparr>
             | Some wt \<Rightarrow> wt))
       sps 0 None PInf"
  by (simp add: chooseParkingSpot64_def Let_def split: option.splits)

lemma fl_v94: "fl (94) = Fin (94)"
proof -
  have "fl (94) = Fin (real_of_int 6614661952700416 * 2 powi (6 - 52))"
    by (rule fl_eqI) simp_all
  then show ?thesis by simp
qed

lemma fl_v5: "fl (5) = Fin (5)"
proof -
  have "fl (5) = Fin (real_of_int 5629499534213120 * 2 powi (2 - 52))"
    by (rule fl_eqI) simp_all
  then show ?thesis by simp
qed

lemma fl_v3: "fl (3) = Fin (3)"
proof -
  have "fl (3) = Fin (real_of_int 6755399441055744 * 2 powi (1 - 52))"
    by (rule fl_eqI) simp_all
  then show ?thesis by simp
qed

lemma fl_v4: "fl (4) = Fin (4)"
proof -
  have "fl (4) = Fin (real_of_int 4503599627370496 * 2 powi (2 - 52))"
    by (rule fl_eqI) simp_all
  then show ?thesis by simp
qed

lemma fl_v1_8: "fl (1 / 8) = Fin (1 / 8)"
proof -
  have "fl (1 / 8) = Fin (real_of_int 4503599627370496 * 2 powi (- 3 - 52))"
    by (rule fl_eqI) simp_all
  then show ?thesis by simp
qed

lemma fl_v1_4: "fl (1 / 4) = Fin (1 / 4)"
proof -
  have "fl (1 / 4) = Fin (real_of_int 4503599627370496 * 2 powi (- 2 - 52))"
    by (rule fl_eqI) simp_all
  then show ?thesis by simp
qed

lemma fl_v3_8: "fl (3 / 8) = Fin (3 / 8)"
proof -
  have "fl (3 / 8) = Fin (real_of_int 6755399441055744 * 2 powi (- 2 - 52))"
    by (rule fl_eqI) simp_all
  then show ?thesis by simp
qed

lemma fl_v41_8: "fl (41 / 8) = Fin (41 / 8)"
proof -
  have "fl (41 / 8) = Fin (real_of_int 5770237022568448 * 2 powi (2 - 52))"
    by (rule fl_eqI) simp_all
  then show ?thesis by simp
qed

lemma lit_huge: "2 ^ 1023 \<le> lit (10 ^ 308)"
proof -
  have "(2::real) ^ 1023 \<le> 10 ^ 308" by simp
  then have "nearest (2 powi 1023) \<le> nearest (10 ^ 308)" by (intro nearest_mono) simp
  then show ?thesis using nearest_pow2 [of 1023] by (simp add: lit_def)
qed

lemma score_far: "spot_score64 (6, 70) w_huge spot_far = PInf"
proof -
  have "2 ^ 1024 \<le> w_dist w_huge * 94" using lit_huge by (simp add: w_huge_def)
  then have o: "fl (w_dist w_huge * 94) = PInf" by (rule fl_PInf)
  show ?thesis
    by (simp add: spot_score64_def spot_far_def hypot64_def d_ops_Fin fl_v94 o dadd_def Let_def)
qed

text \<open>
  C7, as the claim states it, fails: with a weight of \<open>1e308\<close> on the distance, the score of a
  spot 94 metres from the entrance overflows to \<open>+Infinity\<close>, which is not below the initial
  \<open>bestScore\<close>. The spot is free and unreserved and the function returns \<open>null\<close>.
\<close>

theorem chooseParkingSpot_overflow_counterexample:
  "\<not> occupied spot_far \<and> \<not> reserved spot_far
   \<and> spot_score64 (6, 70) w_huge spot_far = PInf
   \<and> chooseParkingSpot64 [spot_far] (Some \<lparr>entrance = Some (6, 70), w = Some w_huge\<rparr>) = None"
proof -
  have f: "\<not> occupied spot_far" "\<not> reserved spot_far" by (simp_all add: spot_far_def)
  have "chooseParkingSpot64 [spot_far] (Some \<lparr>entrance = Some (6, 70), w = Some w_huge\<rparr>) = None"
    using f by (simp add: chooseParkingSpot64_unfold score_far)
  with f score_far show ?thesis by simp
qed

text \<open>
  C7, amended: the scores are the binary64 values the engine computes, an absent \<open>opts\<close>,
  \<open>entrance\<close> or \<open>w\<close> stands for the entrance \<open>(6, 70)\<close> and the weights
  \<open>1, 0.6, 0.8, 0.2\<close>, and a spot can be returned only if its score is below \<open>+Infinity\<close>.
  \<open>chooseParkingSpot\<close> returns \<open>null\<close> exactly when every spot is occupied, reserved, or has a
  score that is not below \<open>+Infinity\<close> (it is \<open>+Infinity\<close> or NaN). Otherwise it returns a spot
  of the list that is neither occupied nor reserved, whose score
  \<open>w.dist * distance + w.exit * exitFriction + w.cong * localCongestion + w.angle * penalty\<close>
  (the penalty is 0.7 for a back-in spot, 0 otherwise) is below \<open>+Infinity\<close>, and no spot that
  is neither occupied nor reserved has a lower score. The function only returns a position:
  the spot list is its argument and is not changed.
\<close>

theorem chooseParkingSpot64_spec:
  "(let e = (case os of None \<Rightarrow> (6, 70)
             | Some ob \<Rightarrow> (case entrance ob of None \<Rightarrow> (6, 70) | Some e \<Rightarrow> e));
        wt = (case os of
                None \<Rightarrow> \<lparr>w_dist = 1, w_exit = lit (6 / 10), w_cong = lit (8 / 10),
                         w_angle = lit (2 / 10)\<rparr>
              | Some ob \<Rightarrow>
                  (case w ob of
                     None \<Rightarrow> \<lparr>w_dist = 1, w_exit = lit (6 / 10), w_cong = lit (8 / 10),
                              w_angle = lit (2 / 10)\<rparr>
                   | Some wt \<Rightarrow> wt))
    in (chooseParkingSpot64 sps os = None
          \<longleftrightarrow> (\<forall>s\<in>set sps. occupied s \<or> reserved s \<or> \<not> jlt (spot_score64 e wt s) PInf))
       \<and> (\<forall>i. chooseParkingSpot64 sps os = Some i \<longrightarrow>
             i < length sps \<and> \<not> occupied (sps ! i) \<and> \<not> reserved (sps ! i)
             \<and> jlt (spot_score64 e wt (sps ! i)) PInf
             \<and> (\<forall>s\<in>set sps. \<not> occupied s \<and> \<not> reserved s \<longrightarrow>
                   \<not> jlt (spot_score64 e wt s) (spot_score64 e wt (sps ! i)))))
   \<and> (\<forall>e wt s. spot_score64 e wt s =
         dadd (dadd (dadd (dmul (Fin (w_dist wt))
                            (hypot64 (dsub (Fin (sx s)) (Fin (fst e)))
                                     (dsub (Fin (sy s)) (Fin (snd e)))))
                          (dmul (Fin (w_exit wt)) (Fin (exitFriction s))))
                    (dmul (Fin (w_cong wt)) (Fin (localCongestion s))))
              (dmul (Fin (w_angle wt)) (Fin (if backIn s then lit (7 / 10) else 0))))
   \<and> (\<forall>x y. hypot64 (Fin x) (Fin y) = fl (sqrt (x\<^sup>2 + y\<^sup>2)))"
proof -
  define e where "e = (case os of None \<Rightarrow> (6::real, 70::real)
             | Some ob \<Rightarrow> (case entrance ob of None \<Rightarrow> (6, 70) | Some e \<Rightarrow> e))"
  define wt where "wt = (case os of
                None \<Rightarrow> \<lparr>w_dist = 1, w_exit = lit (6 / 10), w_cong = lit (8 / 10),
                         w_angle = lit (2 / 10)\<rparr>
              | Some ob \<Rightarrow>
                  (case w ob of
                     None \<Rightarrow> \<lparr>w_dist = 1, w_exit = lit (6 / 10), w_cong = lit (8 / 10),
                              w_angle = lit (2 / 10)\<rparr>
                   | Some wt \<Rightarrow> wt))"
  have u: "chooseParkingSpot64 sps os = spot_loop64 e wt sps 0 None PInf"
    by (simp only: chooseParkingSpot64_unfold e_def wt_def)
  have A: "chooseParkingSpot64 sps os = None
          \<longleftrightarrow> (\<forall>s\<in>set sps. occupied s \<or> reserved s \<or> \<not> jlt (spot_score64 e wt s) PInf)"
    unfolding u spot_loop64_None by (auto simp: eligible_def)
  have B: "\<forall>i. chooseParkingSpot64 sps os = Some i \<longrightarrow>
             i < length sps \<and> \<not> occupied (sps ! i) \<and> \<not> reserved (sps ! i)
             \<and> jlt (spot_score64 e wt (sps ! i)) PInf
             \<and> (\<forall>s\<in>set sps. \<not> occupied s \<and> \<not> reserved s \<longrightarrow>
                   \<not> jlt (spot_score64 e wt s) (spot_score64 e wt (sps ! i)))"
  proof (intro allI impI)
    fix i assume "chooseParkingSpot64 sps os = Some i"
    then have "spot_loop64 e wt sps 0 None PInf = Some i" by (simp only: u)
    from spot_loop64_Some [OF this]
    show "i < length sps \<and> \<not> occupied (sps ! i) \<and> \<not> reserved (sps ! i)
             \<and> jlt (spot_score64 e wt (sps ! i)) PInf
             \<and> (\<forall>s\<in>set sps. \<not> occupied s \<and> \<not> reserved s \<longrightarrow>
                   \<not> jlt (spot_score64 e wt s) (spot_score64 e wt (sps ! i)))"
      by (simp add: eligible_def)
  qed
  have C: "\<forall>e wt s. spot_score64 e wt s =
         dadd (dadd (dadd (dmul (Fin (w_dist wt))
                            (hypot64 (dsub (Fin (sx s)) (Fin (fst e)))
                                     (dsub (Fin (sy s)) (Fin (snd e)))))
                          (dmul (Fin (w_exit wt)) (Fin (exitFriction s))))
                    (dmul (Fin (w_cong wt)) (Fin (localCongestion s))))
              (dmul (Fin (w_angle wt)) (Fin (if backIn s then lit (7 / 10) else 0)))"
    by (simp add: spot_score64_def Let_def)
  have D: "\<forall>x y. hypot64 (Fin x) (Fin y) = fl (sqrt (x\<^sup>2 + y\<^sup>2))"
    by (simp add: hypot64_def)
  from A B have "(chooseParkingSpot64 sps os = None
          \<longleftrightarrow> (\<forall>s\<in>set sps. occupied s \<or> reserved s \<or> \<not> jlt (spot_score64 e wt s) PInf))
       \<and> (\<forall>i. chooseParkingSpot64 sps os = Some i \<longrightarrow>
             i < length sps \<and> \<not> occupied (sps ! i) \<and> \<not> reserved (sps ! i)
             \<and> jlt (spot_score64 e wt (sps ! i)) PInf
             \<and> (\<forall>s\<in>set sps. \<not> occupied s \<and> \<not> reserved s \<longrightarrow>
                   \<not> jlt (spot_score64 e wt s) (spot_score64 e wt (sps ! i))))" ..
  then show ?thesis unfolding e_def wt_def Let_def using C D by blast
qed

lemma fl_q_b: "fl (5404319552844595 / 18014398509481984) = Fin (5404319552844595 / 18014398509481984)"
proof -
  have "fl (5404319552844595 / 18014398509481984) = Fin (real_of_int 5404319552844595 * 2 powi (- 2 - 52))"
    by (rule fl_eqI) simp_all
  then show ?thesis by simp
qed

lemma fl_q_d: "fl (3602879701896397 / 9007199254740992) = Fin (3602879701896397 / 9007199254740992)"
proof -
  have "fl (3602879701896397 / 9007199254740992) = Fin (real_of_int 7205759403792794 * 2 powi (- 2 - 52))"
    by (rule fl_eqI) simp_all
  then show ?thesis by simp
qed

lemma fl_q_e: "fl (12610078956637389 / 18014398509481984) = Fin (3152519739159347 / 4503599627370496)"
proof -
  have "fl (12610078956637389 / 18014398509481984) = Fin (real_of_int 6305039478318694 * 2 powi (- 1 - 52))"
    by (rule fl_eqI) simp_all
  then show ?thesis by simp
qed

lemma fl_q_g: "fl (3152519739159347 / 4503599627370496) = Fin (3152519739159347 / 4503599627370496)"
proof -
  have "fl (3152519739159347 / 4503599627370496) = Fin (real_of_int 6305039478318694 * 2 powi (- 1 - 52))"
    by (rule fl_eqI) simp_all
  then show ?thesis by simp
qed

lemma sqrt_25: "sqrt 25 = 5"
  using real_sqrt_abs [of 5] by simp

lemma score_p: "spot_score64 (6, 70) w_dyadic spot_p = Fin (41 / 8)"
  by (simp add: spot_score64_def spot_p_def w_dyadic_def hypot64_def d_ops_Fin sqrt_25
        fl_v3 fl_v4 fl_v5 fl_v1_8 fl_v41_8 Let_def)

lemma score_q: "spot_score64 (6, 70) w_dyadic spot_q = Fin (3 / 8)"
  by (simp add: spot_score64_def spot_q_def w_dyadic_def hypot64_def d_ops_Fin
        fl_v1_4 fl_v1_8 fl_v3_8 Let_def)

lemma score_q_default:
  "spot_score64 (6, 70)
     \<lparr>w_dist = 1, w_exit = lit (6 / 10), w_cong = lit (8 / 10), w_angle = lit (2 / 10)\<rparr> spot_q
   = Fin (3152519739159347 / 2 ^ 52)"
  "spot_score64 (6, 70)
     \<lparr>w_dist = 1, w_exit = lit (3 / 5), w_cong = lit (4 / 5), w_angle = lit (1 / 5)\<rparr> spot_q
   = Fin (3152519739159347 / 2 ^ 52)"
  by (simp_all add: spot_score64_def spot_q_def hypot64_def d_ops_Fin lit_6_10 lit_8_10 lit_2_10
        fl_q_b fl_q_d fl_q_e fl_q_g Let_def)

theorem chooseParkingSpot64_spec_witness:
  "chooseParkingSpot64 [spot_r, spot_p, spot_q]
     (Some \<lparr>entrance = Some (6, 70), w = Some w_dyadic\<rparr>) = Some 2
   \<and> 2 < length [spot_r, spot_p, spot_q]
   \<and> \<not> occupied ([spot_r, spot_p, spot_q] ! 2) \<and> \<not> reserved ([spot_r, spot_p, spot_q] ! 2)
   \<and> spot_score64 (6, 70) w_dyadic spot_q = Fin (3 / 8)
   \<and> spot_score64 (6, 70) w_dyadic spot_p = Fin (41 / 8)
   \<and> jlt (spot_score64 (6, 70) w_dyadic ([spot_r, spot_p, spot_q] ! 2)) PInf
   \<and> spot_p \<in> set [spot_r, spot_p, spot_q] \<and> \<not> occupied spot_p \<and> \<not> reserved spot_p
   \<and> \<not> jlt (spot_score64 (6, 70) w_dyadic spot_p)
            (spot_score64 (6, 70) w_dyadic ([spot_r, spot_p, spot_q] ! 2))
   \<and> reserved spot_r
   \<and> chooseParkingSpot64 [spot_r] None = None
   \<and> chooseParkingSpot64 [spot_r, spot_q] None = Some 1
   \<and> jlt (spot_score64 (6, 70)
             \<lparr>w_dist = 1, w_exit = lit (6 / 10), w_cong = lit (8 / 10), w_angle = lit (2 / 10)\<rparr>
             ([spot_r, spot_q] ! 1)) PInf"
proof -
  let ?os = "Some \<lparr>entrance = Some (6, 70), w = Some w_dyadic\<rparr>"
  have r: "reserved spot_r" by (simp add: spot_r_def)
  have el: "spot_p \<in> set [spot_r, spot_p, spot_q]" "\<not> occupied spot_p" "\<not> reserved spot_p"
    "\<not> occupied spot_q" "\<not> reserved spot_q"
    by (simp_all add: spot_p_def spot_q_def)
  have c: "chooseParkingSpot64 [spot_r, spot_p, spot_q] ?os = Some 2"
    using r el by (simp add: chooseParkingSpot64_unfold score_p score_q)
  have d: "chooseParkingSpot64 [spot_r, spot_q] None = Some 1"
    using r el by (simp add: chooseParkingSpot64_unfold score_q_default)
  note T = chooseParkingSpot64_spec [of ?os "[spot_r, spot_p, spot_q]", unfolded Let_def,
      THEN conjunct1, THEN conjunct2, rule_format, OF c]
  then have t: "2 < length [spot_r, spot_p, spot_q]
      \<and> \<not> occupied ([spot_r, spot_p, spot_q] ! 2) \<and> \<not> reserved ([spot_r, spot_p, spot_q] ! 2)
      \<and> jlt (spot_score64 (6, 70) w_dyadic ([spot_r, spot_p, spot_q] ! 2)) PInf
      \<and> (\<forall>s\<in>set [spot_r, spot_p, spot_q]. \<not> occupied s \<and> \<not> reserved s \<longrightarrow>
            \<not> jlt (spot_score64 (6, 70) w_dyadic s)
                   (spot_score64 (6, 70) w_dyadic ([spot_r, spot_p, spot_q] ! 2)))"
    unfolding option.case opts.select_convs .
  with el have m: "\<not> jlt (spot_score64 (6, 70) w_dyadic spot_p)
            (spot_score64 (6, 70) w_dyadic ([spot_r, spot_p, spot_q] ! 2))"
    by blast
  note N = chooseParkingSpot64_spec [of None "[spot_r]", unfolded Let_def,
      THEN conjunct1, THEN conjunct1]
  from N r have n: "chooseParkingSpot64 [spot_r] None = None" by simp
  note D = chooseParkingSpot64_spec [of None "[spot_r, spot_q]", unfolded Let_def,
      THEN conjunct1, THEN conjunct2, rule_format, OF d]
  then have dd: "jlt (spot_score64 (6, 70)
             \<lparr>w_dist = 1, w_exit = lit (6 / 10), w_cong = lit (8 / 10), w_angle = lit (2 / 10)\<rparr>
             ([spot_r, spot_q] ! 1)) PInf"
    unfolding option.case opts.select_convs by blast
  from c t score_q score_p el m r n d dd show ?thesis by blast
qed

section \<open>Properties of the rebalancer\<close>

lemma stage_get_set:
  "stage_get (stage_set n v p) m = (if m = n then v else stage_get p m)"
  by (cases n; cases m) simp_all

lemma donor_loop_None:
  "donor_loop h names p = (p', None) \<Longrightarrow> p' = p"
  by (induction names) (auto simp: Let_def split: if_splits)

lemma donor_loop_Some:
  "donor_loop h names p = (p', Some (fr, to)) \<Longrightarrow>
     to = h \<and> fr \<noteq> h \<and> fr \<in> set names \<and> 1 < stage_get p fr
     \<and> p' = stage_set h (stage_get p h + 1) (stage_set fr (stage_get p fr - 1) p)"
  by (induction names) (auto simp: Let_def stage_min_def stage_get_set split: if_splits)

lemma donor_loop_floor:
  "\<forall>n\<in>set names. n \<noteq> h \<longrightarrow> stage_get p n \<le> 1 \<Longrightarrow> donor_loop h names p = (p, None)"
  by (induction names) (auto simp: stage_min_def)

lemma donor_loop_None_floor:
  "donor_loop h names p = (p', None) \<Longrightarrow> n \<in> set names \<Longrightarrow> n \<noteq> h \<Longrightarrow> stage_get p n \<le> 1"
  by (induction names) (auto simp: Let_def stage_min_def split: if_splits)

lemma total_servers_move:
  "fr \<noteq> h \<Longrightarrow>
   total_servers (stage_set h (stage_get p h + 1) (stage_set fr (stage_get p fr - 1) p))
   = total_servers p"
  by (cases fr; cases h) (simp_all add: total_servers_def)

lemma sort_insert_ne: "sort_insert cmp v xs \<noteq> []"
  by (cases xs) simp_all

lemma sort_js_ne: "xs \<noteq> [] \<Longrightarrow> sort_js cmp xs \<noteq> []"
proof -
  assume "xs \<noteq> []"
  then obtain ys y where "xs = ys @ [y]" by (metis rev_exhaust)
  then show ?thesis by (simp add: sort_js_def sort_insert_ne)
qed

lemma entries_ne: "sort_js by_pressure_desc (pressure_entries sys) \<noteq> []"
  by (rule sort_js_ne) (simp add: pressure_entries_def)

lemma rebalance_unfold:
  "rebalanceServers sys =
     (let r = donor_loop (hottest_of sys)
                (rev (map fst (sort_js by_pressure_desc (pressure_entries sys)))) (params sys)
      in (sys\<lparr>params := fst r\<rparr>, snd r))"
  using entries_ne [of sys]
  by (cases "sort_js by_pressure_desc (pressure_entries sys)")
     (simp_all add: rebalanceServers_def hottest_of_def Let_def split: prod.splits)

lemma rebalance_from_sorted:
  "rebalanceServers sys = rebalance_from (sort_js by_pressure_desc (pressure_entries sys)) sys"
  unfolding rebalanceServers_def rebalance_from_def Let_def by (rule refl)

lemma rebalance_from_unfold:
  "es \<noteq> [] \<Longrightarrow>
   rebalance_from es sys =
     (let r = donor_loop (fst (hd es)) (rev (map fst es)) (params sys)
      in (sys\<lparr>params := fst r\<rparr>, snd r))"
  by (cases es) (simp_all add: rebalance_from_def Let_def split: prod.splits)

lemma mset_sort_insert: "mset (sort_insert cmp v xs) = add_mset v (mset xs)"
  by (induction xs) simp_all

lemma mset_foldl_insert:
  "mset (foldl (\<lambda>acc v. sort_insert cmp v acc) acc vs) = mset acc + mset vs"
  by (induction vs arbitrary: acc) (simp_all add: mset_sort_insert)

lemma mset_sort_js: "mset (sort_js cmp vs) = mset vs"
  by (simp add: sort_js_def mset_foldl_insert)

lemma jle_total: "a \<noteq> NaN \<Longrightarrow> b \<noteq> NaN \<Longrightarrow> jle a b \<or> jle b a"
  by (cases a; cases b) auto

lemma jle_trans: "jle a b \<Longrightarrow> jle b c \<Longrightarrow> jle a c"
  by (cases a; cases b; cases c) auto

lemma jle_refl: "a \<noteq> NaN \<Longrightarrow> jle a a"
  by (cases a) auto

lemma desc_not_less:
  "snd v \<noteq> NaN \<Longrightarrow> snd y \<noteq> NaN \<Longrightarrow>
   jlt (by_pressure_desc v y) (Fin 0) \<longleftrightarrow> jlt (snd y) (snd v)"
  by (cases "snd v"; cases "snd y") (simp_all add: by_pressure_desc_def jsub_def)

lemma jlt_jle: "jlt a b \<Longrightarrow> jle a b"
  by (cases a; cases b) auto

lemma not_jlt_jle: "a \<noteq> NaN \<Longrightarrow> b \<noteq> NaN \<Longrightarrow> \<not> jlt a b \<Longrightarrow> jle b a"
  by (cases a; cases b) auto

lemma sorted_sort_insert:
  assumes "sorted_wrt pressure_ge xs" and "snd v \<noteq> NaN" and "\<forall>x\<in>set xs. snd x \<noteq> NaN"
  shows "sorted_wrt pressure_ge (sort_insert by_pressure_desc v xs)"
  using assms
proof (induction xs)
  case Nil
  then show ?case by simp
next
  case (Cons y ys)
  show ?case
  proof (cases "jlt (by_pressure_desc v y) (Fin 0)")
    case True
    then have lt: "jlt (snd y) (snd v)" using Cons.prems by (simp add: desc_not_less)
    have "pressure_ge v x" if "x \<in> set (y # ys)" for x
    proof -
      have "pressure_ge y x \<or> x = y" using that Cons.prems(1) by auto
      moreover have "pressure_ge v y" using lt by (simp add: pressure_ge_def jlt_jle)
      ultimately show ?thesis
        by (auto simp: pressure_ge_def intro: jle_trans)
    qed
    with True Cons.prems(1) show ?thesis by simp
  next
    case False
    then have ge: "pressure_ge y v"
      using Cons.prems by (simp add: desc_not_less pressure_ge_def not_jlt_jle)
    have s: "sorted_wrt pressure_ge (sort_insert by_pressure_desc v ys)"
      using Cons by simp
    have "set (sort_insert by_pressure_desc v ys) = insert v (set ys)"
      using mset_sort_insert [of by_pressure_desc v ys]
      by (metis set_mset_add_mset_insert set_mset_mset)
    with Cons.prems(1) ge have "\<forall>x\<in>set (sort_insert by_pressure_desc v ys). pressure_ge y x"
      by auto
    with s False show ?thesis by simp
  qed
qed

lemma sorted_foldl_insert:
  assumes "sorted_wrt pressure_ge acc" and "\<forall>x\<in>set acc. snd x \<noteq> NaN"
    and "\<forall>x\<in>set vs. snd x \<noteq> NaN"
  shows "sorted_wrt pressure_ge (foldl (\<lambda>acc v. sort_insert by_pressure_desc v acc) acc vs)"
  using assms
proof (induction vs arbitrary: acc)
  case Nil
  then show ?case by simp
next
  case (Cons v vs)
  have s: "sorted_wrt pressure_ge (sort_insert by_pressure_desc v acc)"
    using Cons.prems by (intro sorted_sort_insert) simp_all
  have "set (sort_insert by_pressure_desc v acc) = insert v (set acc)"
    using mset_sort_insert [of by_pressure_desc v acc]
    by (metis set_mset_add_mset_insert set_mset_mset)
  with Cons.prems have n: "\<forall>x\<in>set (sort_insert by_pressure_desc v acc). snd x \<noteq> NaN"
    by simp
  from Cons.IH [OF s n] Cons.prems(3) show ?case by simp
qed

lemma sort_js_hd_max:
  assumes "\<forall>x\<in>set vs. snd x \<noteq> NaN" and "e \<in> set vs"
  shows "jle (snd e) (snd (hd (sort_js by_pressure_desc vs)))"
proof -
  let ?s = "sort_js by_pressure_desc vs"
  have srt: "sorted_wrt pressure_ge ?s"
    unfolding sort_js_def using assms(1) by (intro sorted_foldl_insert) simp_all
  have st: "set ?s = set vs" using mset_sort_js [of by_pressure_desc vs] by (metis set_mset_mset)
  with assms(2) have ne: "?s \<noteq> []" by auto
  then obtain h t where ht: "?s = h # t" by (cases ?s) auto
  have "e = h \<or> e \<in> set t" using assms(2) st ht by auto
  then show ?thesis
  proof
    assume "e = h"
    then show ?thesis using assms ht by (simp add: jle_refl)
  next
    assume "e \<in> set t"
    then have "pressure_ge h e" using srt ht by auto
    then show ?thesis by (simp add: ht pressure_ge_def)
  qed
qed

lemma stage_all: "n \<in> {OrderA, OrderB, Pay, Pickup}"
  by (cases n) simp_all

lemma entries_names:
  assumes "mset es = mset (pressure_entries sys)"
  shows "set (map fst es) = {OrderA, OrderB, Pay, Pickup}" and "es \<noteq> []"
proof -
  have "set es = set (pressure_entries sys)" using assms by (metis set_mset_mset)
  then show "set (map fst es) = {OrderA, OrderB, Pay, Pickup}"
    by (auto simp: pressure_entries_def)
  show "es \<noteq> []" using assms by (auto simp: pressure_entries_def)
qed

text \<open>
  C1: take any state in which each of the four stages has at least one server, and any order
  \<open>es\<close> in which the sort may leave the four entries; the hottest stage is the stage of the
  first entry. A call that returns a pair \<open>(from, to)\<close> leaves the sum of the four counts as
  it was and every count at least 1: it takes one server from \<open>from\<close>, which had more than 1
  and is not the hottest stage, gives it to \<open>to\<close>, the hottest stage, and changes nothing
  else. The call returns \<open>null\<close> exactly when every stage but the hottest has one server,
  and then it changes nothing. \<open>rebalanceServers\<close> is the case where \<open>es\<close> is the sorted
  list; when no pressure is NaN, no stage has a higher pressure than its first entry.
\<close>

theorem rebalance_conserves:
  assumes "\<forall>n. 1 \<le> stage_get (params sys) n"
    and "mset es = mset (pressure_entries sys)"
  shows "(\<forall>fr to. snd (rebalance_from es sys) = Some (fr, to) \<longrightarrow>
            total_servers (params (fst (rebalance_from es sys))) = total_servers (params sys)
            \<and> (\<forall>n. 1 \<le> stage_get (params (fst (rebalance_from es sys))) n)
            \<and> to = fst (hd es) \<and> fr \<noteq> to \<and> 1 < stage_get (params sys) fr
            \<and> stage_get (params (fst (rebalance_from es sys))) fr = stage_get (params sys) fr - 1
            \<and> stage_get (params (fst (rebalance_from es sys))) to = stage_get (params sys) to + 1
            \<and> (\<forall>n. n \<noteq> fr \<and> n \<noteq> to \<longrightarrow>
                  stage_get (params (fst (rebalance_from es sys))) n = stage_get (params sys) n)
            \<and> queues (fst (rebalance_from es sys)) = queues sys)
         \<and> (snd (rebalance_from es sys) = None
              \<longleftrightarrow> (\<forall>n. n \<noteq> fst (hd es) \<longrightarrow> stage_get (params sys) n = 1))
         \<and> (snd (rebalance_from es sys) = None \<longrightarrow> fst (rebalance_from es sys) = sys)
         \<and> rebalanceServers sys
             = rebalance_from (sort_js by_pressure_desc (pressure_entries sys)) sys
         \<and> mset (sort_js by_pressure_desc (pressure_entries sys)) = mset (pressure_entries sys)
         \<and> ((\<forall>e\<in>set (pressure_entries sys). snd e \<noteq> NaN) \<longrightarrow>
              (\<forall>e\<in>set (pressure_entries sys).
                 jle (snd e) (snd (hd (sort_js by_pressure_desc (pressure_entries sys))))))"
proof -
  define h where "h = fst (hd es)"
  define r where "r = donor_loop h (rev (map fst es)) (params sys)"
  have names: "set (rev (map fst es)) = {OrderA, OrderB, Pay, Pickup}"
    using entries_names(1) [OF assms(2)] by simp
  have rb: "rebalance_from es sys = (sys\<lparr>params := fst r\<rparr>, snd r)"
    using entries_names(2) [OF assms(2)]
    by (simp add: rebalance_from_unfold r_def h_def Let_def)
  have p: "params (fst (rebalance_from es sys)) = fst r"
    and q: "queues (fst (rebalance_from es sys)) = queues sys"
    and sn: "snd (rebalance_from es sys) = snd r"
    by (simp_all add: rb)
  have some: "total_servers (fst r) = total_servers (params sys)
       \<and> (\<forall>n. 1 \<le> stage_get (fst r) n)
       \<and> to = h \<and> fr \<noteq> to \<and> 1 < stage_get (params sys) fr
       \<and> stage_get (fst r) fr = stage_get (params sys) fr - 1
       \<and> stage_get (fst r) to = stage_get (params sys) to + 1
       \<and> (\<forall>n. n \<noteq> fr \<and> n \<noteq> to \<longrightarrow> stage_get (fst r) n = stage_get (params sys) n)"
    if s: "snd r = Some (fr, to)" for fr to
  proof -
    from s have "donor_loop h (rev (map fst es)) (params sys) = (fst r, Some (fr, to))"
      by (simp add: r_def prod_eq_iff)
    from donor_loop_Some [OF this]
    have d: "to = h" "fr \<noteq> h" "1 < stage_get (params sys) fr"
      "fst r = stage_set h (stage_get (params sys) h + 1)
                 (stage_set fr (stage_get (params sys) fr - 1) (params sys))"
      by simp_all
    have t: "total_servers (fst r) = total_servers (params sys)"
      unfolding d(4) using d(2) by (rule total_servers_move)
    have g: "stage_get (fst r) n
             = (if n = h then stage_get (params sys) h + 1
                else if n = fr then stage_get (params sys) fr - 1
                else stage_get (params sys) n)" for n
      unfolding d(4) by (simp add: stage_get_set)
    have fl: "1 \<le> stage_get (fst r) n" for n
    proof -
      have "1 \<le> stage_get (params sys) h" "1 \<le> stage_get (params sys) n"
        using assms(1) by simp_all
      with d(3) show ?thesis by (simp add: g)
    qed
    show ?thesis using t fl d(1,2,3) g by simp
  qed
  have A: "\<forall>fr to. snd (rebalance_from es sys) = Some (fr, to) \<longrightarrow>
            total_servers (params (fst (rebalance_from es sys))) = total_servers (params sys)
            \<and> (\<forall>n. 1 \<le> stage_get (params (fst (rebalance_from es sys))) n)
            \<and> to = fst (hd es) \<and> fr \<noteq> to \<and> 1 < stage_get (params sys) fr
            \<and> stage_get (params (fst (rebalance_from es sys))) fr = stage_get (params sys) fr - 1
            \<and> stage_get (params (fst (rebalance_from es sys))) to = stage_get (params sys) to + 1
            \<and> (\<forall>n. n \<noteq> fr \<and> n \<noteq> to \<longrightarrow>
                  stage_get (params (fst (rebalance_from es sys))) n = stage_get (params sys) n)
            \<and> queues (fst (rebalance_from es sys)) = queues sys"
  proof (intro allI impI)
    fix fr to assume "snd (rebalance_from es sys) = Some (fr, to)"
    then have s: "snd r = Some (fr, to)" by (simp add: sn)
    show "total_servers (params (fst (rebalance_from es sys))) = total_servers (params sys)
            \<and> (\<forall>n. 1 \<le> stage_get (params (fst (rebalance_from es sys))) n)
            \<and> to = fst (hd es) \<and> fr \<noteq> to \<and> 1 < stage_get (params sys) fr
            \<and> stage_get (params (fst (rebalance_from es sys))) fr = stage_get (params sys) fr - 1
            \<and> stage_get (params (fst (rebalance_from es sys))) to = stage_get (params sys) to + 1
            \<and> (\<forall>n. n \<noteq> fr \<and> n \<noteq> to \<longrightarrow>
                  stage_get (params (fst (rebalance_from es sys))) n = stage_get (params sys) n)
            \<and> queues (fst (rebalance_from es sys)) = queues sys"
      unfolding p q using some [OF s] unfolding h_def by blast
  qed
  have B: "snd (rebalance_from es sys) = None
              \<longleftrightarrow> (\<forall>n. n \<noteq> fst (hd es) \<longrightarrow> stage_get (params sys) n = 1)"
  proof
    assume "snd (rebalance_from es sys) = None"
    then have d: "donor_loop h (rev (map fst es)) (params sys) = (fst r, None)"
      by (simp add: sn r_def prod_eq_iff)
    show "\<forall>n. n \<noteq> fst (hd es) \<longrightarrow> stage_get (params sys) n = 1"
    proof (intro allI impI)
      fix n assume n: "n \<noteq> fst (hd es)"
      have "n \<in> set (rev (map fst es))" unfolding names by (rule stage_all)
      from donor_loop_None_floor [OF d this] n have "stage_get (params sys) n \<le> 1"
        by (simp add: h_def)
      with assms(1) show "stage_get (params sys) n = 1" by (simp add: order_antisym)
    qed
  next
    assume f: "\<forall>n. n \<noteq> fst (hd es) \<longrightarrow> stage_get (params sys) n = 1"
    have "donor_loop h (rev (map fst es)) (params sys) = (params sys, None)"
      by (rule donor_loop_floor) (use f in \<open>simp add: h_def\<close>)
    then show "snd (rebalance_from es sys) = None" by (simp add: sn r_def)
  qed
  have C: "snd (rebalance_from es sys) = None \<longrightarrow> fst (rebalance_from es sys) = sys"
  proof
    assume "snd (rebalance_from es sys) = None"
    then have "donor_loop h (rev (map fst es)) (params sys) = (fst r, None)"
      by (simp add: sn r_def prod_eq_iff)
    then have "fst r = params sys" by (rule donor_loop_None)
    then show "fst (rebalance_from es sys) = sys" by (simp add: rb)
  qed
  have D: "rebalanceServers sys
             = rebalance_from (sort_js by_pressure_desc (pressure_entries sys)) sys"
    by (rule rebalance_from_sorted)
  have E: "mset (sort_js by_pressure_desc (pressure_entries sys)) = mset (pressure_entries sys)"
    by (rule mset_sort_js)
  have F: "(\<forall>e\<in>set (pressure_entries sys). snd e \<noteq> NaN) \<longrightarrow>
              (\<forall>e\<in>set (pressure_entries sys).
                 jle (snd e) (snd (hd (sort_js by_pressure_desc (pressure_entries sys)))))"
    using sort_js_hd_max [of "pressure_entries sys"] by blast
  show ?thesis by (rule conjI [OF A conjI [OF B conjI [OF C conjI [OF D conjI [OF E F]]]]])
qed

theorem rebalance_conserves_witness:
  "(\<forall>n. 1 \<le> stage_get (params \<lparr>queues = queues_210, params = initial_params\<lparr>payServers := 2\<rparr>\<rparr>) n)
   \<and> mset (sort_js by_pressure_desc
         (pressure_entries \<lparr>queues = queues_210, params = initial_params\<lparr>payServers := 2\<rparr>\<rparr>))
       = mset (pressure_entries \<lparr>queues = queues_210, params = initial_params\<lparr>payServers := 2\<rparr>\<rparr>)
   \<and> fst (hd (sort_js by_pressure_desc
         (pressure_entries \<lparr>queues = queues_210, params = initial_params\<lparr>payServers := 2\<rparr>\<rparr>)))
       = OrderA
   \<and> rebalanceServers \<lparr>queues = queues_210, params = initial_params\<lparr>payServers := 2\<rparr>\<rparr>
       = (\<lparr>queues = queues_210,
           params = initial_params\<lparr>payServers := 1, orderServers := (\<lambda>L. 1)(LaneA := 2)\<rparr>\<rparr>,
          Some (Pay, OrderA))
   \<and> total_servers (initial_params\<lparr>payServers := 2\<rparr>) = 5
   \<and> total_servers (params (fst (rebalanceServers
         \<lparr>queues = queues_210, params = initial_params\<lparr>payServers := 2\<rparr>\<rparr>))) = 5
   \<and> (\<forall>n. 1 \<le> stage_get (params (fst (rebalanceServers
         \<lparr>queues = queues_210, params = initial_params\<lparr>payServers := 2\<rparr>\<rparr>))) n)
   \<and> (\<forall>n. 1 \<le> stage_get (params \<lparr>queues = queues_210, params = initial_params\<rparr>) n)
   \<and> fst (hd (sort_js by_pressure_desc
         (pressure_entries \<lparr>queues = queues_210, params = initial_params\<rparr>))) = OrderA
   \<and> stage_get initial_params OrderB = 1 \<and> stage_get initial_params Pay = 1
   \<and> stage_get initial_params Pickup = 1
   \<and> rebalanceServers \<lparr>queues = queues_210, params = initial_params\<rparr>
       = (\<lparr>queues = queues_210, params = initial_params\<rparr>, None)"
proof -
  let ?S = "\<lparr>queues = queues_210, params = initial_params\<lparr>payServers := 2\<rparr>\<rparr>"
  let ?I = "\<lparr>queues = queues_210, params = initial_params\<rparr>"
  have c: "\<forall>n. 1 \<le> stage_get (params ?S) n"
  proof
    fix n show "1 \<le> stage_get (params ?S) n" by (cases n) (simp_all add: initial_params_def)
  qed
  have c0: "\<forall>n. 1 \<le> stage_get (params ?I) n"
  proof
    fix n show "1 \<le> stage_get (params ?I) n" by (cases n) (simp_all add: initial_params_def)
  qed
  have v: "rebalanceServers ?S
     = (\<lparr>queues = queues_210,
         params = initial_params\<lparr>payServers := 1, orderServers := (\<lambda>L. 1)(LaneA := 2)\<rparr>\<rparr>,
        Some (Pay, OrderA))"
    by (simp add: rebalanceServers_def pressure_entries_def util_def sort_js_def
          by_pressure_desc_def jsub_def queues_210_def initial_params_def Let_def stage_min_def)
  have h: "fst (hd (sort_js by_pressure_desc (pressure_entries ?S))) = OrderA"
    by (simp add: pressure_entries_def util_def sort_js_def
          by_pressure_desc_def jsub_def queues_210_def initial_params_def)
  have h0: "fst (hd (sort_js by_pressure_desc (pressure_entries ?I))) = OrderA"
    by (simp add: pressure_entries_def util_def sort_js_def
          by_pressure_desc_def jsub_def queues_210_def initial_params_def)
  have t: "total_servers (initial_params\<lparr>payServers := 2\<rparr>) = 5"
    by (simp add: total_servers_def initial_params_def)
  have g: "stage_get initial_params OrderB = 1" "stage_get initial_params Pay = 1"
    "stage_get initial_params Pickup = 1"
    by (simp_all add: initial_params_def)
  have m: "mset (sort_js by_pressure_desc (pressure_entries ?S)) = mset (pressure_entries ?S)"
    and m0: "mset (sort_js by_pressure_desc (pressure_entries ?I)) = mset (pressure_entries ?I)"
    by (rule mset_sort_js)+
  note T = rebalance_conserves [OF c m]
  from T have eq: "rebalanceServers ?S
      = rebalance_from (sort_js by_pressure_desc (pressure_entries ?S)) ?S"
    by blast
  from T v have "total_servers (params (fst (rebalanceServers ?S))) = total_servers (params ?S)
      \<and> (\<forall>n. 1 \<le> stage_get (params (fst (rebalanceServers ?S))) n)"
    unfolding eq [symmetric] by (metis snd_conv)
  with t have t': "total_servers (params (fst (rebalanceServers ?S))) = 5"
    and f': "\<forall>n. 1 \<le> stage_get (params (fst (rebalanceServers ?S))) n"
    by simp_all
  note N = rebalance_conserves [OF c0 m0]
  from N have eq0: "rebalanceServers ?I
      = rebalance_from (sort_js by_pressure_desc (pressure_entries ?I)) ?I"
    by blast
  have fl0: "\<forall>n. n \<noteq> fst (hd (sort_js by_pressure_desc (pressure_entries ?I))) \<longrightarrow>
          stage_get (params ?I) n = 1"
  proof (intro allI impI)
    fix n assume "n \<noteq> fst (hd (sort_js by_pressure_desc (pressure_entries ?I)))"
    then show "stage_get (params ?I) n = 1"
      unfolding h0 using g by (cases n) simp_all
  qed
  from N fl0 have "snd (rebalanceServers ?I) = None \<and> fst (rebalanceServers ?I) = ?I"
    unfolding eq0 [symmetric] by blast
  then have n: "rebalanceServers ?I = (?I, None)" by (simp add: prod_eq_iff)
  from c m h v t t' f' c0 h0 g n show ?thesis by blast
qed

section \<open>Properties of the engine\<close>

lemma distinct_count_le1: "distinct xs \<longleftrightarrow> (\<forall>r. count (mset xs) r \<le> 1)"
proof (induction xs)
  case Nil
  then show ?case by simp
next
  case (Cons x xs)
  show ?case
  proof
    assume d: "distinct (x # xs)"
    then have "count (mset xs) x = 0" by (simp add: count_eq_zero_iff)
    with d Cons show "\<forall>r. count (mset (x # xs)) r \<le> 1" by simp
  next
    assume a: "\<forall>r. count (mset (x # xs)) r \<le> 1"
    then have "count (mset (x # xs)) x \<le> 1" by blast
    then have "count (mset xs) x = 0" by simp
    then have nx: "x \<notin> set xs" by (simp add: count_eq_zero_iff)
    have "count (mset xs) r \<le> 1" for r
    proof -
      have "count (mset xs) r \<le> count (mset (x # xs)) r" by simp
      also have "\<dots> \<le> 1" using a by blast
      finally show ?thesis .
    qed
    with Cons nx show "distinct (x # xs)" by simp
  qed
qed

lemma conserved_refs:
  "conserved st \<longleftrightarrow>
     arrivals (metrics st) = served (metrics st) + size (refs (queues st))
     \<and> (\<forall>r. count (refs (queues st)) r \<le> 1)
     \<and> (\<forall>r\<in>#refs (queues st). r < arrivals (metrics st))"
proof -
  have w: "wip_of q = size (refs q)" for q
    by (simp add: wip_of_def refs_def all_cars_def)
  have d: "distinct (map ref (all_cars q)) \<longleftrightarrow> (\<forall>r. count (refs q) r \<le> 1)" for q
    unfolding refs_def by (rule distinct_count_le1)
  have l: "list_all (\<lambda>c. ref c < n) (all_cars q) \<longleftrightarrow> (\<forall>r\<in>#refs q. r < n)" for q n
    by (auto simp: refs_def list_all_iff)
  show ?thesis unfolding conserved_def w d l ..
qed

lemma conservedI:
  assumes "arrivals (metrics st) = served (metrics st) + size (refs (queues st))"
    and "\<And>r. count (refs (queues st)) r \<le> 1"
    and "\<And>r. r \<in># refs (queues st) \<Longrightarrow> r < arrivals (metrics st)"
  shows "conserved st"
  unfolding conserved_refs using assms by blast

lemma conservedD:
  assumes "conserved st"
  shows "arrivals (metrics st) = served (metrics st) + size (refs (queues st))"
    and "count (refs (queues st)) r \<le> 1"
    and "r \<in># refs (queues st) \<Longrightarrow> r < arrivals (metrics st)"
  using assms unfolding conserved_refs by blast+

lemma refs_split:
  "refs q = mset (map ref (order q LaneA)) + mset (map ref (order q LaneB))
          + mset (map ref (pay q)) + mset (map ref (pickup q)) + mset (map ref (curbside q))"
  by (simp add: refs_def all_cars_def)

lemma conserved_same:
  assumes c: "conserved st" and r: "refs (queues st') = refs (queues st)"
    and a: "arrivals (metrics st') = arrivals (metrics st)"
    and s: "served (metrics st') = served (metrics st)"
  shows "conserved st'"
proof (rule conservedI)
  show "arrivals (metrics st') = served (metrics st') + size (refs (queues st'))"
    unfolding r a s by (rule conservedD(1) [OF c])
  show "count (refs (queues st')) x \<le> 1" for x
    unfolding r by (rule conservedD(2) [OF c])
  show "x < arrivals (metrics st')" if "x \<in># refs (queues st')" for x
    using that unfolding r a by (rule conservedD(3) [OF c])
qed

lemma conserved_leave:
  assumes c: "conserved st" and r: "refs (queues st) = refs (queues st') + {#x#}"
    and a: "arrivals (metrics st') = arrivals (metrics st)"
    and s: "served (metrics st') = served (metrics st) + 1"
  shows "conserved st'"
proof (rule conservedI)
  have "arrivals (metrics st) = served (metrics st) + size (refs (queues st))"
    by (rule conservedD(1) [OF c])
  then show "arrivals (metrics st') = served (metrics st') + size (refs (queues st'))"
    unfolding r a s by simp
  show "count (refs (queues st')) y \<le> 1" for y
  proof -
    have "count (refs (queues st')) y \<le> count (refs (queues st)) y" unfolding r by simp
    also have "\<dots> \<le> 1" by (rule conservedD(2) [OF c])
    finally show ?thesis .
  qed
  show "y < arrivals (metrics st')" if "y \<in># refs (queues st')" for y
  proof -
    from that have "y \<in># refs (queues st)" unfolding r by simp
    then show ?thesis unfolding a by (rule conservedD(3) [OF c])
  qed
qed

lemma conserved_enter:
  assumes c: "conserved st"
    and r: "refs (queues st') = refs (queues st) + {#arrivals (metrics st)#}"
    and a: "arrivals (metrics st') = arrivals (metrics st) + 1"
    and s: "served (metrics st') = served (metrics st)"
  shows "conserved st'"
proof (rule conservedI)
  have "arrivals (metrics st) = served (metrics st) + size (refs (queues st))"
    by (rule conservedD(1) [OF c])
  then show "arrivals (metrics st') = served (metrics st') + size (refs (queues st'))"
    unfolding r a s by simp
  have fresh: "arrivals (metrics st) \<notin># refs (queues st)"
  proof
    assume "arrivals (metrics st) \<in># refs (queues st)"
    from conservedD(3) [OF c this] show False by simp
  qed
  show "count (refs (queues st')) y \<le> 1" for y
  proof (cases "y = arrivals (metrics st)")
    case True
    have "count (refs (queues st)) (arrivals (metrics st)) = 0"
      using fresh by (simp add: count_eq_zero_iff)
    then show ?thesis unfolding r True by simp
  next
    case False
    then have "count (refs (queues st')) y = count (refs (queues st)) y" unfolding r by simp
    then show ?thesis using conservedD(2) [OF c, of y] by simp
  qed
  show "y < arrivals (metrics st')" if "y \<in># refs (queues st')" for y
  proof (cases "y = arrivals (metrics st)")
    case True
    then show ?thesis unfolding a by simp
  next
    case False
    with that have "y \<in># refs (queues st)" unfolding r by simp
    from conservedD(3) [OF c this] show ?thesis unfolding a by simp
  qed
qed

lemma record_completion_fields:
  "served (record_completion now c m) = served m + 1"
  "arrivals (record_completion now c m) = arrivals m"
  "parked (record_completion now c m) = parked m"
  by (simp_all add: record_completion_def Let_def)

lemma join_lane_refs:
  "refs (queues (join_lane L c st)) = refs (queues st) + {#ref c#}"
  by (cases L) (simp_all add: join_lane_def refs_split)

lemma join_lane_fields:
  "metrics (join_lane L c st) = metrics st"
  "spots (join_lane L c st) = spots st"
  "params (join_lane L c st) = params st"
  by (simp_all add: join_lane_def)

lemma park_fields:
  "refs (queues (park i c st)) = refs (queues st) + {#ref c#}"
  "arrivals (metrics (park i c st)) = arrivals (metrics st)"
  "served (metrics (park i c st)) = served (metrics st)"
  "params (park i c st) = params st"
  by (simp_all add: park_def refs_split)

lemma route_cases:
  "(\<exists>L. route c st = join_lane L c st) \<or> (\<exists>i. route c st = park i c st)"
proof -
  obtain bl eta where b: "chooseBestLane st (isMobile c) = (bl, eta)"
    by (cases "chooseBestLane st (isMobile c)")
  show ?thesis
  proof (cases "chooseParkingSpot (spots st) (Some \<lparr>entrance = Some (6, 70), w = None\<rparr>)")
    case None
    then have "route c st = join_lane bl c st" by (simp add: route_def b)
    then show ?thesis by blast
  next
    case (Some i)
    then have "route c st = join_lane bl c st \<or> route c st = park i c st"
      by (simp add: route_def b)
    then show ?thesis by blast
  qed
qed

lemma route_fields:
  "refs (queues (route c st)) = refs (queues st) + {#ref c#}"
  "arrivals (metrics (route c st)) = arrivals (metrics st)"
  "served (metrics (route c st)) = served (metrics st)"
  "params (route c st) = params st"
  using route_cases [of c st]
  by (auto simp: join_lane_refs join_lane_fields park_fields)

lemma admit_conserved: "conserved st \<Longrightarrow> conserved (admit now u_id u_mob st)"
  by (erule conserved_enter) (simp_all add: admit_def Let_def route_fields new_car_def)

lemma conserved_nextArrival: "conserved (st\<lparr>nextArrival := v\<rparr>) = conserved st"
  by (simp add: conserved_def)

lemma arrivals_loop_stop:
  "\<not> jle (nextArrival st) (Fin 0) \<Longrightarrow> arrivals_loop now rs st = Some (st, rs)"
  by (subst arrivals_loop.simps) simp

lemma arrivals_loop_go:
  "jle (nextArrival st) (Fin 0) \<Longrightarrow>
   arrivals_loop now (u_id # u_mob # rs1) st =
     (case exp_js (arrivalRate (params (admit now u_id u_mob st)) / 60) rs1 of
        None \<Rightarrow> None
      | Some (gap, rs2) \<Rightarrow>
          arrivals_loop now rs2
            ((admit now u_id u_mob st)\<lparr>nextArrival :=
               jadd (nextArrival (admit now u_id u_mob st)) gap\<rparr>))"
  by (subst arrivals_loop.simps) (simp add: Let_def)

lemma arrivals_loop_short:
  "jle (nextArrival st) (Fin 0) \<Longrightarrow> length rs < 2 \<Longrightarrow> arrivals_loop now rs st = None"
  by (subst arrivals_loop.simps) (auto split: list.splits)

lemma arrivals_loop_conserved:
  "conserved st \<Longrightarrow> arrivals_loop now rs st = Some (st', rs') \<Longrightarrow> conserved st'"
proof (induction now rs st rule: arrivals_loop.induct)
  case (1 now rs st)
  show ?case
  proof (cases "jle (nextArrival st) (Fin 0)")
    case False
    with "1.prems" show ?thesis by (simp add: arrivals_loop_stop)
  next
    case True
    have "\<not> length rs < 2" using "1.prems"(2) arrivals_loop_short [OF True, of rs now] by auto
    then obtain u_id u_mob rs1 where rs: "rs = u_id # u_mob # rs1"
      by (cases rs; cases "tl rs") auto
    define st1 where "st1 = admit now u_id u_mob st"
    from "1.prems"(2) obtain gap rs2 where
      e: "exp_js (arrivalRate (params st1) / 60) rs1 = Some (gap, rs2)"
      and r: "arrivals_loop now rs2 (st1\<lparr>nextArrival := jadd (nextArrival st1) gap\<rparr>)
              = Some (st', rs')"
      unfolding rs arrivals_loop_go [OF True] st1_def by (auto split: option.splits)
    have c: "conserved (st1\<lparr>nextArrival := jadd (nextArrival st1) gap\<rparr>)"
      using "1.prems"(1) by (simp add: conserved_nextArrival admit_conserved st1_def)
    show ?thesis
      by (rule "1.IH" [OF True rs refl refl e [unfolded st1_def] refl
            c [unfolded st1_def] r [unfolded st1_def]])
  qed
qed

lemma mset_ref_hd_tl:
  "xs \<noteq> [] \<Longrightarrow> add_mset (ref (hd xs)) (mset (map ref (tl xs))) = mset (map ref xs)"
  by (cases xs) simp_all

lemma order_service_fields:
  "refs (queues (order_service dt now L st)) = refs (queues st)"
  "metrics (order_service dt now L st) = metrics st"
  "params (order_service dt now L st) = params st"
  "spots (order_service dt now L st) = spots st"
proof -
  show "refs (queues (order_service dt now L st)) = refs (queues st)"
  proof (cases "order (queues st) L = []")
    case True
    then show ?thesis by (simp add: order_service_def)
  next
    case False
    from mset_ref_hd_tl [OF this] show ?thesis
      by (cases L) (auto simp: order_service_def Let_def refs_split)
  qed
qed (simp_all add: order_service_def Let_def)

lemma pay_service_fields:
  "refs (queues (pay_service dt now st)) = refs (queues st)"
  "metrics (pay_service dt now st) = metrics st"
  "params (pay_service dt now st) = params st"
  "spots (pay_service dt now st) = spots st"
proof -
  show "refs (queues (pay_service dt now st)) = refs (queues st)"
  proof (cases "pay (queues st) = []")
    case True
    then show ?thesis by (simp add: pay_service_def)
  next
    case False
    from mset_ref_hd_tl [OF this] show ?thesis
      by (auto simp: pay_service_def Let_def refs_split)
  qed
qed (simp_all add: pay_service_def Let_def)

lemma order_service_conserved: "conserved st \<Longrightarrow> conserved (order_service dt now L st)"
  by (erule conserved_same) (simp_all add: order_service_fields)

lemma pay_service_conserved: "conserved st \<Longrightarrow> conserved (pay_service dt now st)"
  by (erule conserved_same) (simp_all add: pay_service_fields)

lemma pickup_service_cases:
  "(refs (queues (pickup_service dt now st)) = refs (queues st)
      \<and> metrics (pickup_service dt now st) = metrics st)
   \<or> (pickup (queues st) \<noteq> []
      \<and> refs (queues st) = refs (queues (pickup_service dt now st)) + {#ref (hd (pickup (queues st)))#}
      \<and> metrics (pickup_service dt now st)
          = record_completion now ((hd (pickup (queues st)))\<lparr>progress_pickup := Some now\<rparr>)
              (metrics st))"
proof (cases "pickup (queues st) = []")
  case True
  then show ?thesis by (simp add: pickup_service_def)
next
  case False
  from mset_ref_hd_tl [OF this] show ?thesis
    by (auto simp: pickup_service_def Let_def refs_split)
qed

lemma pickup_service_conserved:
  assumes "conserved st" shows "conserved (pickup_service dt now st)"
  using pickup_service_cases [of dt now st]
proof
  assume "refs (queues (pickup_service dt now st)) = refs (queues st)
      \<and> metrics (pickup_service dt now st) = metrics st"
  then show ?thesis by (intro conserved_same [OF assms]) simp_all
next
  assume "pickup (queues st) \<noteq> []
      \<and> refs (queues st) = refs (queues (pickup_service dt now st)) + {#ref (hd (pickup (queues st)))#}
      \<and> metrics (pickup_service dt now st)
          = record_completion now ((hd (pickup (queues st)))\<lparr>progress_pickup := Some now\<rparr>)
              (metrics st)"
  then show ?thesis
    by (intro conserved_leave [OF assms, of _ "ref (hd (pickup (queues st)))"])
       (simp_all add: record_completion_fields)
qed

lemma refs_curbside_update:
  assumes "i < length (curbside q)" and "ref c1 = ref (curbside q ! i)"
  shows "refs (q\<lparr>curbside := (curbside q)[i := c1]\<rparr>) = refs q"
proof -
  have "map ref ((curbside q)[i := c1]) = map ref (curbside q)"
    using assms by (simp add: map_update list_update_same_conv)
  then show ?thesis by (simp add: refs_split)
qed

lemma refs_curbside_remove:
  assumes "i < length (curbside q)"
  shows "refs q = refs (q\<lparr>curbside := take i (curbside q) @ drop (Suc i) (curbside q)\<rparr>)
                  + {#ref (curbside q ! i)#}"
proof -
  have "curbside q = take i (curbside q) @ curbside q ! i # drop (Suc i) (curbside q)"
    using assms by (rule id_take_nth_drop)
  then have "mset (map ref (curbside q))
             = mset (map ref (take i (curbside q) @ drop (Suc i) (curbside q)))
               + {#ref (curbside q ! i)#}"
    by (metis (no_types, lifting) add_mset_add_single list.simps(9) map_append mset.simps(2)
        mset_append union_mset_add_mset_right)
  then show ?thesis by (simp add: refs_split)
qed

lemma ensure_readyAt_Some:
  "ensure_readyAt c rs = Some (c1, rs1) \<Longrightarrow> ref c1 = ref c \<and> arrival c1 = arrival c"
  by (auto simp: ensure_readyAt_def split: if_splits list.splits)

lemma curbside_loop_Suc:
  "curbside_loop now (Suc i) rs st = Some (st', rs') \<Longrightarrow>
   \<exists>c1 rs1. ensure_readyAt (curbside (queues st) ! i) rs = Some (c1, rs1)
     \<and> curbside_loop now i rs1 (curbside_visit now i c1 st) = Some (st', rs')"
  by (auto split: option.splits)

lemma visit_conserved:
  assumes c: "conserved st" and i: "i < length (curbside (queues st))"
    and r: "ref c1 = ref (curbside (queues st) ! i)"
  shows "conserved (curbside_visit now i c1 st)"
    and "i \<le> length (curbside (queues (curbside_visit now i c1 st)))"
proof -
  define st1 where "st1 = st\<lparr>queues := (queues st)\<lparr>curbside := (curbside (queues st))[i := c1]\<rparr>\<rparr>"
  have r1: "refs (queues st1) = refs (queues st)"
    using refs_curbside_update [OF i r] by (simp add: st1_def)
  have c1: "conserved st1"
    by (rule conserved_same [OF c r1]) (simp_all add: st1_def)
  have i1: "i < length (curbside (queues st1))" using i by (simp add: st1_def)
  have n1: "curbside (queues st1) ! i = c1" using i by (simp add: st1_def)
  show "conserved (curbside_visit now i c1 st)"
  proof (cases "now \<ge> the (readyAt c1)")
    case False
    then show ?thesis using c1 by (simp add: curbside_visit_def st1_def Let_def)
  next
    case True
    have "conserved (st1\<lparr>spots := release_spot (parkingSpotId c1) (spots st1),
               queues := (queues st1)\<lparr>curbside :=
                  take i (curbside (queues st1)) @ drop (Suc i) (curbside (queues st1))\<rparr>,
               metrics := record_completion now c1 (metrics st1)\<rparr>)"
      using refs_curbside_remove [OF i1]
      by (intro conserved_leave [OF c1, of _ "ref c1"]) (simp_all add: n1 record_completion_fields)
    then show ?thesis using True by (simp add: curbside_visit_def st1_def Let_def)
  qed
  show "i \<le> length (curbside (queues (curbside_visit now i c1 st)))"
    using i by (auto simp: curbside_visit_def Let_def)
qed

lemma curbside_loop_conserved:
  "i \<le> length (curbside (queues st)) \<Longrightarrow> conserved st \<Longrightarrow>
   curbside_loop now i rs st = Some (st', rs') \<Longrightarrow> conserved st'"
proof (induction i arbitrary: st rs)
  case 0
  then show ?case by simp
next
  case (Suc i)
  from curbside_loop_Suc [OF Suc.prems(3)] obtain c1 rs1 where
    e: "ensure_readyAt (curbside (queues st) ! i) rs = Some (c1, rs1)"
    and l: "curbside_loop now i rs1 (curbside_visit now i c1 st) = Some (st', rs')"
    by blast
  have r: "ref c1 = ref (curbside (queues st) ! i)"
    using ensure_readyAt_Some [OF e] by simp
  have i: "i < length (curbside (queues st))" using Suc.prems(1) by simp
  show ?case
    by (rule Suc.IH [OF visit_conserved(2) [OF Suc.prems(2) i r]
          visit_conserved(1) [OF Suc.prems(2) i r] l])
qed

lemma conserved_cong:
  "queues st' = queues st \<Longrightarrow> arrivals (metrics st') = arrivals (metrics st) \<Longrightarrow>
   served (metrics st') = served (metrics st) \<Longrightarrow> conserved st' = conserved st"
  by (simp add: conserved_def)

lemma update_metrics_conserved: "conserved (update_metrics now st) = conserved st"
  by (rule conserved_cong) (simp_all add: update_metrics_def Let_def)

lemma rebalance_fst: "\<exists>p. fst (rebalanceServers st) = st\<lparr>params := p\<rparr>"
  unfolding rebalance_unfold Let_def fst_conv by (rule exI) (rule refl)

lemma maybe_rebalance_Some:
  "maybe_rebalance rs st = Some (st', rs') \<Longrightarrow> \<exists>p. st' = st\<lparr>params := p\<rparr>"
proof -
  assume a: "maybe_rebalance rs st = Some (st', rs')"
  have id: "st = st\<lparr>params := params st\<rparr>" by simp
  from a have "st' = st \<or> st' = fst (rebalanceServers st)"
    by (auto simp: maybe_rebalance_def split: if_splits list.splits)
  then show ?thesis
  proof
    assume "st' = st"
    with id show ?thesis by (intro exI [of _ "params st"]) simp
  next
    assume "st' = fst (rebalanceServers st)"
    with rebalance_fst [of st] show ?thesis by simp
  qed
qed

lemma conserved_params: "conserved (st\<lparr>params := p\<rparr>) = conserved st"
  by (simp add: conserved_def)

lemma step_Some:
  assumes "step dt now rs st = Some (st', rs')"
  obtains st1 rs1 st5 rs2 where
    "arrivals_loop now rs (st\<lparr>nextArrival := jsub (nextArrival st) (Fin dt)\<rparr>) = Some (st1, rs1)"
    "curbside_loop now
       (length (curbside (queues (pickup_service dt now (pay_service dt now
          (order_service dt now LaneB (order_service dt now LaneA st1)))))))
       rs1
       (pickup_service dt now (pay_service dt now
          (order_service dt now LaneB (order_service dt now LaneA st1)))) = Some (st5, rs2)"
    "maybe_rebalance rs2 (update_metrics now st5) = Some (st', rs')"
proof -
  obtain st1 rs1 where
    a: "arrivals_loop now rs (st\<lparr>nextArrival := jsub (nextArrival st) (Fin dt)\<rparr>) = Some (st1, rs1)"
    using assms
    by (cases "arrivals_loop now rs (st\<lparr>nextArrival := jsub (nextArrival st) (Fin dt)\<rparr>)")
       (auto simp: step_def)
  define st4 where "st4 = pickup_service dt now (pay_service dt now
          (order_service dt now LaneB (order_service dt now LaneA st1)))"
  have s: "step dt now rs st =
     (case curbside_loop now (length (curbside (queues st4))) rs1 st4 of
        None \<Rightarrow> None
      | Some (st5, rs2) \<Rightarrow> maybe_rebalance rs2 (update_metrics now st5))"
    by (simp add: step_def a Let_def st4_def)
  obtain st5 rs2 where
    b: "curbside_loop now (length (curbside (queues st4))) rs1 st4 = Some (st5, rs2)"
    using assms unfolding s
    by (cases "curbside_loop now (length (curbside (queues st4))) rs1 st4") auto
  have m: "maybe_rebalance rs2 (update_metrics now st5) = Some (st', rs')"
    using assms unfolding s b by simp
  show ?thesis by (rule that [OF a b [unfolded st4_def] m])
qed

lemma step_conserved:
  assumes c: "conserved st" and s: "step dt now rs st = Some (st', rs')"
  shows "conserved st'"
proof -
  from s obtain st1 rs1 st5 rs2 where
    a: "arrivals_loop now rs (st\<lparr>nextArrival := jsub (nextArrival st) (Fin dt)\<rparr>) = Some (st1, rs1)"
    and b: "curbside_loop now
       (length (curbside (queues (pickup_service dt now (pay_service dt now
          (order_service dt now LaneB (order_service dt now LaneA st1)))))))
       rs1
       (pickup_service dt now (pay_service dt now
          (order_service dt now LaneB (order_service dt now LaneA st1)))) = Some (st5, rs2)"
    and m: "maybe_rebalance rs2 (update_metrics now st5) = Some (st', rs')"
    by (rule step_Some)
  have "conserved (st\<lparr>nextArrival := jsub (nextArrival st) (Fin dt)\<rparr>)"
    using c by (simp add: conserved_nextArrival)
  then have "conserved st1" using a by (rule arrivals_loop_conserved)
  then have "conserved (pickup_service dt now (pay_service dt now
          (order_service dt now LaneB (order_service dt now LaneA st1))))"
    by (intro pickup_service_conserved pay_service_conserved order_service_conserved)
  then have "conserved st5" using b by (intro curbside_loop_conserved [OF _ _ b]) simp_all
  then have "conserved (update_metrics now st5)" by (simp add: update_metrics_conserved)
  moreover from maybe_rebalance_Some [OF m] obtain p where "st' = (update_metrics now st5)\<lparr>params := p\<rparr>" ..
  ultimately show ?thesis by (simp add: conserved_params)
qed

lemma reset_conserved: "conserved (reset_state p sps na)"
  by (simp add: conserved_def reset_state_def empty_queues_def zero_metrics_def wip_of_def all_cars_def)

lemma paused_reset_run_conserved: "paused_reset_run st \<Longrightarrow> conserved st"
proof (induction rule: paused_reset_run.induct)
  case (run_reset p sps na)
  show ?case by (rule reset_conserved)
next
  case (run_step st dt now rs st' rs')
  from run_step.IH run_step.hyps(2) show ?case by (rule step_conserved)
next
  case (run_params st p)
  from run_params.IH show ?case by (simp only: conserved_params)
qed

lemma paused_reset_run_reachable: "paused_reset_run st \<Longrightarrow> reachable st"
proof (induction rule: paused_reset_run.induct)
  case (run_reset p sps na)
  show ?case by (rule reach_reset)
next
  case (run_step st dt now rs st' rs')
  from run_step.IH run_step.hyps(2) show ?case by (rule reach_step)
next
  case (run_params st p)
  from run_params.IH show ?case by (rule reach_params)
qed

lemma avg_ok_cong:
  "served m' = served m \<Longrightarrow> avgWait m' = avgWait m \<Longrightarrow> waits m' = waits m \<Longrightarrow>
   avg_ok m' = avg_ok m"
  by (simp add: avg_ok_def)

lemma avg_ok_updates:
  "avg_ok (m\<lparr>arrivals := a\<rparr>) = avg_ok m"
  "avg_ok (m\<lparr>parked := b\<rparr>) = avg_ok m"
  "avg_ok (m\<lparr>maxWip := k\<rparr>) = avg_ok m"
  "avg_ok (m\<lparr>history := h\<rparr>) = avg_ok m"
  by (simp_all add: avg_ok_def)

lemma avg_ok_record_completion:
  assumes "avg_ok m" shows "avg_ok (record_completion now c m)"
proof -
  define n where "n = length (waits m)"
  have s: "served m = n" and e: "avgWait m * real n = sum_list (waits m)"
    using assms by (simp_all add: avg_ok_def n_def)
  have "avgWait (record_completion now c m) = (avgWait m * real n + (now - arrival c)) / (real n + 1)"
    by (simp add: record_completion_def Let_def s)
  then have "avgWait (record_completion now c m) * (real n + 1)
             = sum_list (waits m) + (now - arrival c)"
    using e by simp
  moreover have "waits (record_completion now c m) = waits m @ [now - arrival c]"
    and "served (record_completion now c m) = n + 1"
    by (simp_all add: record_completion_def Let_def s)
  ultimately show ?thesis by (simp add: avg_ok_def n_def add.commute)
qed

lemma welford:
  "avgWait (record_completion now c m)
   = avgWait m + ((now - arrival c) - avgWait m) / real (served m + 1)"
  by (simp add: record_completion_def Let_def field_simps)

lemma avg_ok_mean:
  assumes "avg_ok m"
  shows "avgWait m = (if waits m = [] then 0 else sum_list (waits m) / real (length (waits m)))"
proof (cases "waits m = []")
  case True
  with assms show ?thesis by (simp add: avg_ok_def)
next
  case False
  then have "real (length (waits m)) \<noteq> 0" by simp
  moreover from assms have "avgWait m * real (length (waits m)) = sum_list (waits m)"
    by (simp add: avg_ok_def)
  ultimately have "avgWait m = sum_list (waits m) / real (length (waits m))"
    by (simp add: field_simps)
  with False show ?thesis by simp
qed

lemma route_avg_ok: "avg_ok (metrics (route c st)) = avg_ok (metrics st)"
  using route_cases [of c st]
  by (auto simp: join_lane_fields park_def avg_ok_updates)

lemma admit_avg_ok: "avg_ok (metrics (admit now u_id u_mob st)) = avg_ok (metrics st)"
  by (simp add: admit_def Let_def route_avg_ok avg_ok_updates)

lemma arrivals_loop_avg_ok:
  "avg_ok (metrics st) \<Longrightarrow> arrivals_loop now rs st = Some (st', rs') \<Longrightarrow> avg_ok (metrics st')"
proof (induction now rs st rule: arrivals_loop.induct)
  case (1 now rs st)
  show ?case
  proof (cases "jle (nextArrival st) (Fin 0)")
    case False
    with "1.prems" show ?thesis by (simp add: arrivals_loop_stop)
  next
    case True
    have "\<not> length rs < 2" using "1.prems"(2) arrivals_loop_short [OF True, of rs now] by auto
    then obtain u_id u_mob rs1 where rs: "rs = u_id # u_mob # rs1"
      by (cases rs; cases "tl rs") auto
    define st1 where "st1 = admit now u_id u_mob st"
    from "1.prems"(2) obtain gap rs2 where
      e: "exp_js (arrivalRate (params st1) / 60) rs1 = Some (gap, rs2)"
      and r: "arrivals_loop now rs2 (st1\<lparr>nextArrival := jadd (nextArrival st1) gap\<rparr>)
              = Some (st', rs')"
      unfolding rs arrivals_loop_go [OF True] st1_def by (auto split: option.splits)
    have c: "avg_ok (metrics (st1\<lparr>nextArrival := jadd (nextArrival st1) gap\<rparr>))"
      using "1.prems"(1) by (simp add: admit_avg_ok st1_def)
    show ?thesis
      by (rule "1.IH" [OF True rs refl refl e [unfolded st1_def] refl
            c [unfolded st1_def] r [unfolded st1_def]])
  qed
qed

lemma pickup_service_avg_ok:
  "avg_ok (metrics st) \<Longrightarrow> avg_ok (metrics (pickup_service dt now st))"
  using pickup_service_cases [of dt now st] by (auto simp: avg_ok_record_completion)

lemma curbside_visit_avg_ok:
  "avg_ok (metrics st) \<Longrightarrow> avg_ok (metrics (curbside_visit now i c1 st))"
  by (simp add: curbside_visit_def Let_def avg_ok_record_completion)

lemma curbside_loop_avg_ok:
  "avg_ok (metrics st) \<Longrightarrow> curbside_loop now i rs st = Some (st', rs') \<Longrightarrow>
   avg_ok (metrics st')"
proof (induction i arbitrary: st rs)
  case 0
  then show ?case by simp
next
  case (Suc i)
  from curbside_loop_Suc [OF Suc.prems(2)] obtain c1 rs1 where
    l: "curbside_loop now i rs1 (curbside_visit now i c1 st) = Some (st', rs')"
    by blast
  show ?case
    by (rule Suc.IH [OF curbside_visit_avg_ok [OF Suc.prems(1)] l])
qed

lemma update_metrics_avg_ok: "avg_ok (metrics (update_metrics now st)) = avg_ok (metrics st)"
  by (simp add: update_metrics_def Let_def avg_ok_updates)

lemma step_avg_ok:
  assumes c: "avg_ok (metrics st)" and s: "step dt now rs st = Some (st', rs')"
  shows "avg_ok (metrics st')"
proof -
  from s obtain st1 rs1 st5 rs2 where
    a: "arrivals_loop now rs (st\<lparr>nextArrival := jsub (nextArrival st) (Fin dt)\<rparr>) = Some (st1, rs1)"
    and b: "curbside_loop now
       (length (curbside (queues (pickup_service dt now (pay_service dt now
          (order_service dt now LaneB (order_service dt now LaneA st1)))))))
       rs1
       (pickup_service dt now (pay_service dt now
          (order_service dt now LaneB (order_service dt now LaneA st1)))) = Some (st5, rs2)"
    and m: "maybe_rebalance rs2 (update_metrics now st5) = Some (st', rs')"
    by (rule step_Some)
  have "avg_ok (metrics (st\<lparr>nextArrival := jsub (nextArrival st) (Fin dt)\<rparr>))"
    using c by simp
  then have "avg_ok (metrics st1)" using a by (rule arrivals_loop_avg_ok)
  then have "avg_ok (metrics (pickup_service dt now (pay_service dt now
          (order_service dt now LaneB (order_service dt now LaneA st1)))))"
    by (intro pickup_service_avg_ok) (simp add: pay_service_fields order_service_fields)
  then have "avg_ok (metrics st5)" using b by (rule curbside_loop_avg_ok)
  then have "avg_ok (metrics (update_metrics now st5))" by (simp add: update_metrics_avg_ok)
  moreover from maybe_rebalance_Some [OF m] obtain p where "st' = (update_metrics now st5)\<lparr>params := p\<rparr>" ..
  ultimately show ?thesis by simp
qed

lemma reachable_avg_ok: "reachable st \<Longrightarrow> avg_ok (metrics st)"
proof (induction rule: reachable.induct)
  case (reach_reset p sps na)
  show ?case by (simp add: avg_ok_def reset_state_def zero_metrics_def)
next
  case (reach_step st dt now rs st' rs')
  from reach_step.IH reach_step.hyps(2) show ?case by (rule step_avg_ok)
next
  case (reach_params st p)
  from reach_params.IH show ?case by simp
next
  case (reach_reset_running st na)
  show ?case by (simp add: avg_ok_def zero_metrics_def)
qed

lemma chooseBestLane_metrics:
  "chooseBestLane (st\<lparr>metrics := m\<rparr>) isMob = chooseBestLane st isMob"
  by (simp add: chooseBestLane_eq lane_total_def)

section \<open>A concrete run\<close>

lemma demo_arrivals:
  "arrivals_loop 0 demo_draws (demo_reset\<lparr>nextArrival := jsub (nextArrival demo_reset) (Fin (8 / 100))\<rparr>)
   = Some (demo_arrived, [1 / 2])"
  by (simp add: demo_draws_def demo_reset_def reset_state_def jsub_def arrivals_loop_go
      arrivals_loop_stop admit_def new_car_def route_def chooseBestLane_def lane_total_def
      predictedQueueTime_def mobileFactor_of_def initial_params_def empty_queues_def
      zero_metrics_def exp_js_def join_lane_def Let_def demo_arrived_def demo_car_def)

lemma demo_services:
  "pickup_service (8 / 100) 0 (pay_service (8 / 100) 0
     (order_service (8 / 100) 0 LaneB (order_service (8 / 100) 0 LaneA demo_arrived)))
   = demo_state1\<lparr>metrics := (metrics demo_state1)\<lparr>maxWip := 0, history := []\<rparr>\<rparr>"
  by (simp add: demo_arrived_def demo_state1_def demo_car_def initial_params_def jsub_def jmax_def
      order_service_def pay_service_def pickup_service_def record_completion_def Let_def)

lemma demo_step1: "step (8 / 100) 0 demo_draws demo_reset = Some (demo_state1, [])"
  unfolding step_def demo_arrivals option.case prod.case Let_def demo_services
  by (simp add: demo_state1_def update_metrics_def wip_of_def maybe_rebalance_def
        initial_params_def Let_def)

lemma demo_arrivals2:
  "arrivals_loop 5 [1 / 100] (demo_state1\<lparr>nextArrival := jsub (nextArrival demo_state1) (Fin 1)\<rparr>)
   = Some (demo_state1\<lparr>nextArrival := Fin (44 / 75)\<rparr>, [1 / 100])"
  by (simp add: demo_state1_def jsub_def arrivals_loop_stop)

lemma demo_services2:
  "pickup_service 1 5 (pay_service 1 5
     (order_service 1 5 LaneB (order_service 1 5 LaneA (demo_state1\<lparr>nextArrival := Fin (44 / 75)\<rparr>))))
   = demo_state2\<lparr>metrics := (metrics demo_state2)\<lparr>history := [(0, 1, 0)]\<rparr>\<rparr>"
  by (simp add: demo_state1_def demo_state2_def demo_car_def initial_params_def jsub_def jmax_def
      order_service_def pay_service_def pickup_service_def record_completion_def Let_def)

lemma demo_rebalance2: "fst (rebalanceServers demo_state2) = demo_state2"
  by (simp add: rebalanceServers_def pressure_entries_def util_def sort_js_def
        by_pressure_desc_def jsub_def demo_state2_def initial_params_def Let_def stage_min_def)

lemma demo_update2:
  "update_metrics 5 (demo_state2\<lparr>metrics := (metrics demo_state2)\<lparr>history := [(0, 1, 0)]\<rparr>\<rparr>)
   = demo_state2"
  by (simp add: demo_state2_def update_metrics_def wip_of_def Let_def)

lemma demo_step2: "step 1 5 [1 / 100] demo_state1 = Some (demo_state2, [])"
proof -
  have c: "curbside (queues (demo_state2\<lparr>metrics := (metrics demo_state2)\<lparr>history := [(0, 1, 0)]\<rparr>\<rparr>)) = []"
    by (simp add: demo_state2_def)
  have a: "autoRebalance (params demo_state2)" by (simp add: demo_state2_def initial_params_def)
  show ?thesis
    unfolding step_def demo_arrivals2 option.case prod.case Let_def demo_services2 c
      list.size(3) curbside_loop.simps demo_update2 maybe_rebalance_def
    using a by (simp add: demo_rebalance2)
qed

lemma demo_reachable: "reachable demo_state1" "reachable demo_state2"
proof -
  have "reachable demo_reset" unfolding demo_reset_def by (rule reach_reset)
  then show 1: "reachable demo_state1" using demo_step1 by (rule reach_step)
  then show "reachable demo_state2" using demo_step2 by (rule reach_step)
qed

lemma stale_arrivals:
  "arrivals_loop 5 [1 / 2] (demo_stale1\<lparr>nextArrival := jsub (nextArrival demo_stale1) (Fin 1)\<rparr>)
   = Some (demo_stale1\<lparr>nextArrival := Fin 1\<rparr>, [1 / 2])"
  by (simp add: demo_stale1_def demo_state1_def jsub_def arrivals_loop_stop)

lemma stale_services:
  "pickup_service 1 5 (pay_service 1 5
     (order_service 1 5 LaneB (order_service 1 5 LaneA (demo_stale1\<lparr>nextArrival := Fin 1\<rparr>))))
   = demo_stale2\<lparr>metrics := (metrics demo_stale2)\<lparr>history := []\<rparr>\<rparr>"
  by (simp add: demo_stale1_def demo_state1_def demo_stale2_def demo_car_def initial_params_def
      zero_metrics_def jsub_def jmax_def order_service_def pay_service_def pickup_service_def
      record_completion_def Let_def)

lemma stale_update:
  "update_metrics 5 (demo_stale2\<lparr>metrics := (metrics demo_stale2)\<lparr>history := []\<rparr>\<rparr>)
   = demo_stale2"
  by (simp add: demo_stale2_def update_metrics_def wip_of_def Let_def)

lemma stale_step: "step 1 5 [1 / 2] demo_stale1 = Some (demo_stale2, [])"
proof -
  have c: "curbside (queues (demo_stale2\<lparr>metrics := (metrics demo_stale2)\<lparr>history := []\<rparr>\<rparr>)) = []"
    by (simp add: demo_stale2_def)
  have a: "autoRebalance (params demo_stale2)" by (simp add: demo_stale2_def initial_params_def)
  show ?thesis
    unfolding step_def stale_arrivals option.case prod.case Let_def stale_services c
      list.size(3) curbside_loop.simps stale_update maybe_rebalance_def
    using a by simp
qed

section \<open>The claims about the engine\<close>

text \<open>
  C2: the conservation law holds in every run in which \<open>reset()\<close> is called only while
  the simulation is paused (\<open>paused_reset_run_conserved\<close>). It fails once \<open>reset()\<close> is
  called while the simulation is running. In \<open>demo_state1\<close>, reached by one step from a
  reset state, a car waits in the pay queue. \<open>reset()\<close> zeroes the metrics and the clocks,
  but the interval goes on with the closure over the old queues, so the car is still in the
  pay queue; the next step, a tick of one minute, serves it, and then the served counter is 1,
  the arrivals counter is 0 and the queues are empty.
\<close>

theorem reset_running_conservation_fails:
  "reachable demo_state1 \<and> pay (queues demo_state1) = [demo_car]
   \<and> reachable demo_stale1
   \<and> queues demo_stale1 = queues demo_state1 \<and> metrics demo_stale1 = zero_metrics
   \<and> step 1 5 [1 / 2] demo_stale1 = Some (demo_stale2, [])
   \<and> reachable demo_stale2
   \<and> arrivals (metrics demo_stale2) = 0 \<and> served (metrics demo_stale2) = 1
   \<and> wip_of (queues demo_stale2) = 0
   \<and> arrivals (metrics demo_stale2)
       \<noteq> served (metrics demo_stale2)
         + (length (order (queues demo_stale2) LaneA) + length (order (queues demo_stale2) LaneB)
            + length (pay (queues demo_stale2)) + length (pickup (queues demo_stale2))
            + length (curbside (queues demo_stale2)))"
proof -
  have r1: "reachable demo_stale1"
    unfolding demo_stale1_def by (rule reach_reset_running [OF demo_reachable(1)])
  have r2: "reachable demo_stale2" using r1 stale_step by (rule reach_step)
  have p: "pay (queues demo_state1) = [demo_car]" by (simp add: demo_state1_def)
  have q: "queues demo_stale1 = queues demo_state1" "metrics demo_stale1 = zero_metrics"
    by (simp_all add: demo_stale1_def)
  have m: "arrivals (metrics demo_stale2) = 0" "served (metrics demo_stale2) = 1"
    "wip_of (queues demo_stale2) = 0"
    by (simp_all add: demo_stale2_def wip_of_def)
  have n: "arrivals (metrics demo_stale2)
       \<noteq> served (metrics demo_stale2)
         + (length (order (queues demo_stale2) LaneA) + length (order (queues demo_stale2) LaneB)
            + length (pay (queues demo_stale2)) + length (pickup (queues demo_stale2))
            + length (curbside (queues demo_stale2)))"
    by (simp add: demo_stale2_def)
  from demo_reachable(1) p r1 q stale_step r2 m n show ?thesis by blast
qed

text \<open>
  C6: an arriving car \<open>c\<close>, for which \<open>chooseBestLane\<close> returns the lane \<open>bl\<close> and the
  delay \<open>eta\<close>, goes to the curbside queue, with its spot marked occupied and the parked
  counter incremented, exactly when \<open>eta\<close> strictly exceeds the divert threshold and some
  spot is neither occupied nor reserved; in every other case it is appended to the order
  queue of \<open>bl\<close>, and spots, curbside queue and parked counter stay as they are. In both
  cases the car is counted as arrived, and the arrivals loop goes on from the state the
  routing leaves: without a spot the step goes on as it does with one.
\<close>

theorem admit_routing:
  assumes c: "c = new_car now u_id u_mob st"
    and b: "chooseBestLane st (isMobile c) = (bl, eta)"
    and st': "st' = admit now u_id u_mob st"
  shows
    "(jlt (Fin (divertThresholdMin (params st))) eta
        \<and> (\<exists>s\<in>set (spots st). \<not> occupied s \<and> \<not> reserved s)
      \<longrightarrow> (\<exists>i. chooseParkingSpot (spots st) (Some \<lparr>entrance = Some (6, 70), w = None\<rparr>) = Some i
            \<and> i < length (spots st) \<and> \<not> occupied (spots st ! i) \<and> \<not> reserved (spots st ! i)
            \<and> curbside (queues st') = curbside (queues st) @
                 [c\<lparr>parkingSpotId := Some (sid (spots st ! i)), state := Some ''curbside''\<rparr>]
            \<and> spots st' = (spots st)[i := (spots st ! i)\<lparr>occupied := True\<rparr>]
            \<and> occupied (spots st' ! i)
            \<and> parked (metrics st') = parked (metrics st) + 1
            \<and> order (queues st') = order (queues st)))
     \<and> (\<not> (jlt (Fin (divertThresholdMin (params st))) eta
           \<and> (\<exists>s\<in>set (spots st). \<not> occupied s \<and> \<not> reserved s))
      \<longrightarrow> order (queues st') = (order (queues st))(bl := order (queues st) bl @ [c\<lparr>lane := Some bl\<rparr>])
          \<and> curbside (queues st') = curbside (queues st)
          \<and> spots st' = spots st
          \<and> parked (metrics st') = parked (metrics st))
     \<and> arrivals (metrics st') = arrivals (metrics st) + 1
     \<and> served (metrics st') = served (metrics st)
     \<and> pay (queues st') = pay (queues st) \<and> pickup (queues st') = pickup (queues st)
     \<and> params st' = params st \<and> nextArrival st' = nextArrival st
     \<and> (jle (nextArrival st) (Fin 0) \<longrightarrow>
          arrivals_loop now (u_id # u_mob # rs1) st =
            (case exp_js (arrivalRate (params st') / 60) rs1 of
               None \<Rightarrow> None
             | Some (gap, rs2) \<Rightarrow>
                 arrivals_loop now rs2 (st'\<lparr>nextArrival := jadd (nextArrival st') gap\<rparr>)))"
proof -
  define st1 where "st1 = st\<lparr>metrics := (metrics st)\<lparr>arrivals := arrivals (metrics st) + 1\<rparr>\<rparr>"
  define os where "os = Some \<lparr>entrance = Some (6, 70), w = (None :: weights option)\<rparr>"
  have st'r: "st' = route c st1" by (simp add: st' admit_def Let_def c st1_def)
  have b1: "chooseBestLane st1 (isMobile c) = (bl, eta)"
    using b by (simp add: st1_def chooseBestLane_metrics)
  have ps: "params st1 = params st" "spots st1 = spots st" by (simp_all add: st1_def)
  have none_iff: "chooseParkingSpot (spots st) os = None
                  \<longleftrightarrow> \<not> (\<exists>s\<in>set (spots st). \<not> occupied s \<and> \<not> reserved s)"
    by (simp add: chooseParkingSpot_None eligible_def)
  have lane_case: "st' = join_lane bl c st1"
    if "\<not> (jlt (Fin (divertThresholdMin (params st))) eta
           \<and> (\<exists>s\<in>set (spots st). \<not> occupied s \<and> \<not> reserved s))"
  proof (cases "jlt (Fin (divertThresholdMin (params st))) eta")
    case False
    then show ?thesis by (simp add: st'r route_def b1 ps)
  next
    case True
    with that have "chooseParkingSpot (spots st) os = None" using none_iff by blast
    then show ?thesis using True by (simp add: st'r route_def b1 ps os_def)
  qed
  have park_case: "\<exists>i. chooseParkingSpot (spots st) os = Some i \<and> i < length (spots st)
        \<and> \<not> occupied (spots st ! i) \<and> \<not> reserved (spots st ! i) \<and> st' = park i c st1"
    if d: "jlt (Fin (divertThresholdMin (params st))) eta
           \<and> (\<exists>s\<in>set (spots st). \<not> occupied s \<and> \<not> reserved s)"
  proof -
    from d none_iff obtain i where i: "chooseParkingSpot (spots st) os = Some i" by auto
    from chooseParkingSpot_Some [OF i] have "i < length (spots st)" "eligible (spots st ! i)"
      by simp_all
    moreover have "st' = park i c st1" using d i by (simp add: st'r route_def b1 ps os_def)
    ultimately show ?thesis using i by (auto simp: eligible_def)
  qed
  have common: "arrivals (metrics st') = arrivals (metrics st) + 1
     \<and> served (metrics st') = served (metrics st)
     \<and> pay (queues st') = pay (queues st) \<and> pickup (queues st') = pickup (queues st)
     \<and> params st' = params st \<and> nextArrival st' = nextArrival st"
  proof (cases "jlt (Fin (divertThresholdMin (params st))) eta
           \<and> (\<exists>s\<in>set (spots st). \<not> occupied s \<and> \<not> reserved s)")
    case True
    from park_case [OF True] obtain i where "st' = park i c st1" by blast
    then show ?thesis by (simp add: park_def st1_def)
  next
    case False
    from lane_case [OF False] show ?thesis by (simp add: join_lane_def st1_def)
  qed
  have P: "jlt (Fin (divertThresholdMin (params st))) eta
        \<and> (\<exists>s\<in>set (spots st). \<not> occupied s \<and> \<not> reserved s)
      \<longrightarrow> (\<exists>i. chooseParkingSpot (spots st) (Some \<lparr>entrance = Some (6, 70), w = None\<rparr>) = Some i
            \<and> i < length (spots st) \<and> \<not> occupied (spots st ! i) \<and> \<not> reserved (spots st ! i)
            \<and> curbside (queues st') = curbside (queues st) @
                 [c\<lparr>parkingSpotId := Some (sid (spots st ! i)), state := Some ''curbside''\<rparr>]
            \<and> spots st' = (spots st)[i := (spots st ! i)\<lparr>occupied := True\<rparr>]
            \<and> occupied (spots st' ! i)
            \<and> parked (metrics st') = parked (metrics st) + 1
            \<and> order (queues st') = order (queues st))"
  proof
    assume d: "jlt (Fin (divertThresholdMin (params st))) eta
        \<and> (\<exists>s\<in>set (spots st). \<not> occupied s \<and> \<not> reserved s)"
    from park_case [OF d] obtain i where
      i: "chooseParkingSpot (spots st) os = Some i" "i < length (spots st)"
         "\<not> occupied (spots st ! i)" "\<not> reserved (spots st ! i)" and p: "st' = park i c st1"
      by blast
    have "curbside (queues st') = curbside (queues st) @
                 [c\<lparr>parkingSpotId := Some (sid (spots st ! i)), state := Some ''curbside''\<rparr>]"
      "spots st' = (spots st)[i := (spots st ! i)\<lparr>occupied := True\<rparr>]"
      "occupied (spots st' ! i)"
      "parked (metrics st') = parked (metrics st) + 1"
      "order (queues st') = order (queues st)"
      using i(2) by (simp_all add: p park_def st1_def)
    with i show "\<exists>i. chooseParkingSpot (spots st) (Some \<lparr>entrance = Some (6, 70), w = None\<rparr>) = Some i
            \<and> i < length (spots st) \<and> \<not> occupied (spots st ! i) \<and> \<not> reserved (spots st ! i)
            \<and> curbside (queues st') = curbside (queues st) @
                 [c\<lparr>parkingSpotId := Some (sid (spots st ! i)), state := Some ''curbside''\<rparr>]
            \<and> spots st' = (spots st)[i := (spots st ! i)\<lparr>occupied := True\<rparr>]
            \<and> occupied (spots st' ! i)
            \<and> parked (metrics st') = parked (metrics st) + 1
            \<and> order (queues st') = order (queues st)"
      unfolding os_def by blast
  qed
  have L: "\<not> (jlt (Fin (divertThresholdMin (params st))) eta
           \<and> (\<exists>s\<in>set (spots st). \<not> occupied s \<and> \<not> reserved s))
      \<longrightarrow> order (queues st') = (order (queues st))(bl := order (queues st) bl @ [c\<lparr>lane := Some bl\<rparr>])
          \<and> curbside (queues st') = curbside (queues st)
          \<and> spots st' = spots st
          \<and> parked (metrics st') = parked (metrics st)"
  proof
    assume n: "\<not> (jlt (Fin (divertThresholdMin (params st))) eta
           \<and> (\<exists>s\<in>set (spots st). \<not> occupied s \<and> \<not> reserved s))"
    from lane_case [OF n]
    show "order (queues st') = (order (queues st))(bl := order (queues st) bl @ [c\<lparr>lane := Some bl\<rparr>])
          \<and> curbside (queues st') = curbside (queues st)
          \<and> spots st' = spots st
          \<and> parked (metrics st') = parked (metrics st)"
      by (simp add: join_lane_def st1_def)
  qed
  have G: "jle (nextArrival st) (Fin 0) \<longrightarrow>
          arrivals_loop now (u_id # u_mob # rs1) st =
            (case exp_js (arrivalRate (params st') / 60) rs1 of
               None \<Rightarrow> None
             | Some (gap, rs2) \<Rightarrow>
                 arrivals_loop now rs2 (st'\<lparr>nextArrival := jadd (nextArrival st') gap\<rparr>))"
    unfolding st' by (rule impI) (rule arrivals_loop_go)
  show ?thesis using P L common G by (intro conjI) blast+
qed

theorem admit_routing_witness:
  "jlt (Fin (divertThresholdMin (params (demo_busy [spot_r, spot_b, spot_f])))) (Fin (5 / 4))
   \<and> spot_f \<in> set (spots (demo_busy [spot_r, spot_b, spot_f]))
   \<and> \<not> occupied spot_f \<and> \<not> reserved spot_f
   \<and> curbside (queues (admit 0 (1 / 4) (1 / 2) (demo_busy [spot_r, spot_b, spot_f])))
       = [(new_car 0 (1 / 4) (1 / 2) (demo_busy [spot_r, spot_b, spot_f]))
            \<lparr>parkingSpotId := Some 3, state := Some ''curbside''\<rparr>]
   \<and> parked (metrics (admit 0 (1 / 4) (1 / 2) (demo_busy [spot_r, spot_b, spot_f]))) = 1
   \<and> occupied (spots (admit 0 (1 / 4) (1 / 2) (demo_busy [spot_r, spot_b, spot_f])) ! 2)
   \<and> jlt (Fin (divertThresholdMin (params (demo_busy [spot_r])))) (Fin (5 / 4))
   \<and> reserved spot_r
   \<and> order (queues (admit 0 (1 / 4) (1 / 2) (demo_busy [spot_r]))) LaneB
       = [car0, (new_car 0 (1 / 4) (1 / 2) (demo_busy [spot_r]))\<lparr>lane := Some LaneB\<rparr>]
   \<and> curbside (queues (admit 0 (1 / 4) (1 / 2) (demo_busy [spot_r]))) = []
   \<and> spots (admit 0 (1 / 4) (1 / 2) (demo_busy [spot_r])) = [spot_r]"
proof -
  have b: "chooseBestLane (demo_busy sps) (isMobile (new_car 0 (1 / 4) (1 / 2) (demo_busy sps)))
           = (LaneB, Fin (5 / 4))" for sps
    by (simp add: chooseBestLane_eq lane_total_def predictedQueueTime_def mobileFactor_of_def
          demo_busy_def new_car_def queues_210_def initial_params_def Let_def)
  have thr: "jlt (Fin (divertThresholdMin (params (demo_busy sps)))) (Fin (5 / 4))" for sps
    by (simp add: demo_busy_def initial_params_def)
  have f: "spot_f \<in> set (spots (demo_busy [spot_r, spot_b, spot_f]))"
    "\<not> occupied spot_f" "\<not> reserved spot_f" "reserved spot_r"
    by (simp_all add: demo_busy_def spot_f_def spot_r_def)
  have ch: "chooseParkingSpot (spots (demo_busy [spot_r, spot_b, spot_f]))
              (Some \<lparr>entrance = Some (6, 70), w = None\<rparr>) = Some 2"
    by (simp add: chooseParkingSpot_def opts_entrance_def opts_w_def default_w_def
          spot_score_def demo_busy_def spot_r_def spot_b_def spot_f_def Let_def)
  note P = admit_routing [OF refl b [of "[spot_r, spot_b, spot_f]"] refl,
             THEN conjunct1, rule_format]
  have "\<exists>i. chooseParkingSpot (spots (demo_busy [spot_r, spot_b, spot_f]))
              (Some \<lparr>entrance = Some (6, 70), w = None\<rparr>) = Some i
          \<and> curbside (queues (admit 0 (1 / 4) (1 / 2) (demo_busy [spot_r, spot_b, spot_f])))
              = curbside (queues (demo_busy [spot_r, spot_b, spot_f])) @
                [(new_car 0 (1 / 4) (1 / 2) (demo_busy [spot_r, spot_b, spot_f]))
                   \<lparr>parkingSpotId := Some (sid (spots (demo_busy [spot_r, spot_b, spot_f]) ! i)),
                    state := Some ''curbside''\<rparr>]
          \<and> occupied (spots (admit 0 (1 / 4) (1 / 2) (demo_busy [spot_r, spot_b, spot_f])) ! i)
          \<and> parked (metrics (admit 0 (1 / 4) (1 / 2) (demo_busy [spot_r, spot_b, spot_f])))
              = parked (metrics (demo_busy [spot_r, spot_b, spot_f])) + 1"
  proof -
    have e: "\<exists>s\<in>set (spots (demo_busy [spot_r, spot_b, spot_f])).
               \<not> occupied s \<and> \<not> reserved s"
      using f by blast
    from P [OF conjI [OF thr e]] show ?thesis by blast
  qed
  then have park:
    "curbside (queues (admit 0 (1 / 4) (1 / 2) (demo_busy [spot_r, spot_b, spot_f])))
       = [(new_car 0 (1 / 4) (1 / 2) (demo_busy [spot_r, spot_b, spot_f]))
            \<lparr>parkingSpotId := Some 3, state := Some ''curbside''\<rparr>]"
    "occupied (spots (admit 0 (1 / 4) (1 / 2) (demo_busy [spot_r, spot_b, spot_f])) ! 2)"
    "parked (metrics (admit 0 (1 / 4) (1 / 2) (demo_busy [spot_r, spot_b, spot_f]))) = 1"
    unfolding ch by (auto simp: demo_busy_def queues_210_def zero_metrics_def spot_f_def)
  note L = admit_routing [OF refl b [of "[spot_r]"] refl,
             THEN conjunct2, THEN conjunct1, rule_format]
  have no: "\<not> (jlt (Fin (divertThresholdMin (params (demo_busy [spot_r])))) (Fin (5 / 4))
              \<and> (\<exists>s\<in>set (spots (demo_busy [spot_r])). \<not> occupied s \<and> \<not> reserved s))"
    by (simp add: demo_busy_def spot_r_def)
  from L [OF no] have lane:
    "order (queues (admit 0 (1 / 4) (1 / 2) (demo_busy [spot_r]))) LaneB
       = [car0, (new_car 0 (1 / 4) (1 / 2) (demo_busy [spot_r]))\<lparr>lane := Some LaneB\<rparr>]"
    "curbside (queues (admit 0 (1 / 4) (1 / 2) (demo_busy [spot_r]))) = []"
    "spots (admit 0 (1 / 4) (1 / 2) (demo_busy [spot_r])) = [spot_r]"
    by (simp_all add: demo_busy_def queues_210_def)
  from thr f park lane show ?thesis by simp
qed

text \<open>
  C9: in every state reached from a reset state, the running average wait is the arithmetic
  mean of the wait samples of all completions since the reset (pickup and curbside), as many
  as cars served, and 0 before the first completion. The update on a completion, which the
  source writes \<open>(avgWait * (served - 1) + w) / served\<close> with \<open>served\<close> already counting
  that completion, gives the same value as the form \<open>oldAvg + (w - oldAvg) / served\<close>
  of the specification. All of this is over the real numbers: rounding is not modelled.
\<close>

theorem avgWait_is_mean:
  "(reachable st \<longrightarrow>
      served (metrics st) = length (waits (metrics st))
      \<and> avgWait (metrics st)
          = (if waits (metrics st) = [] then 0
             else sum_list (waits (metrics st)) / real (length (waits (metrics st)))))
   \<and> served (record_completion now c m) = served m + 1
   \<and> waits (record_completion now c m) = waits m @ [now - arrival c]
   \<and> avgWait (record_completion now c m)
       = (avgWait m * (real (served (record_completion now c m)) - 1) + (now - arrival c))
         / real (served (record_completion now c m))
   \<and> avgWait (record_completion now c m)
       = avgWait m + ((now - arrival c) - avgWait m) / real (served (record_completion now c m))"
proof (intro conjI impI)
  assume r: "reachable st"
  from reachable_avg_ok [OF r] show "served (metrics st) = length (waits (metrics st))"
    by (simp add: avg_ok_def)
  from reachable_avg_ok [OF r] show "avgWait (metrics st)
          = (if waits (metrics st) = [] then 0
             else sum_list (waits (metrics st)) / real (length (waits (metrics st))))"
    by (rule avg_ok_mean)
next
  show "served (record_completion now c m) = served m + 1"
    by (simp add: record_completion_def Let_def)
  show "waits (record_completion now c m) = waits m @ [now - arrival c]"
    by (simp add: record_completion_def Let_def)
  show "avgWait (record_completion now c m)
       = (avgWait m * (real (served (record_completion now c m)) - 1) + (now - arrival c))
         / real (served (record_completion now c m))"
    by (simp add: record_completion_def Let_def)
  show "avgWait (record_completion now c m)
       = avgWait m + ((now - arrival c) - avgWait m) / real (served (record_completion now c m))"
    using welford [of now c m] by (simp add: record_completion_def Let_def)
qed

theorem avgWait_is_mean_witness:
  "reachable demo_state2
   \<and> waits (metrics demo_state2) = [0, 5]
   \<and> served (metrics demo_state2) = 2
   \<and> avgWait (metrics demo_state2) = 5 / 2
   \<and> avgWait (metrics demo_state2)
       = sum_list (waits (metrics demo_state2)) / real (length (waits (metrics demo_state2)))"
proof -
  have w: "waits (metrics demo_state2) = [0, 5]" by (simp add: demo_state2_def)
  from avgWait_is_mean [of demo_state2, THEN conjunct1, rule_format, OF demo_reachable(2)]
  have "served (metrics demo_state2) = 2"
    and "avgWait (metrics demo_state2)
          = sum_list (waits (metrics demo_state2)) / real (length (waits (metrics demo_state2)))"
    by (simp_all add: w)
  then show ?thesis using w demo_reachable(2) by simp
qed

end
